theory Spec2Isabelle
  imports Complex_Main "HOL-Library.Word"
begin

section \<open>The limit order book of OrderBook/main.cpp\<close>

text \<open>
  The book keeps resting orders in two price-ordered maps (bids, asks), finds an order by
  its identity through a hash map of locations, and stores the order records in a pool.
  The model follows the C++ member by member.

  \<^item> \<open>uint64_t\<close> is \<open>64 word\<close>: \<open>+\<close> and \<open>-\<close> wrap around as in C++.
  \<^item> \<open>double\<close> prices are only ever compared (\<open><\<close>, \<open>>\<close>, \<open>!=\<close>), never computed with
    by the book. On finite doubles these comparisons agree with the order of the reals,
    so a price is a \<open>real\<close>. NaN, on which \<open>std::map\<close> has no defined behaviour, is outside
    the model.
  \<^item> \<open>Order*\<close> is the ordinal number of the pool allocation that produced the record
    (the pool never frees or moves a record, so this number names the record for ever).
  \<^item> A \<open>std::list<Order*>::iterator\<close> is a stable handle of one list node. Every node is
    created by \<open>push_back\<close> of a freshly allocated \<open>Order*\<close>, so a node is named by the
    pointer it holds: dereferencing the handle gives that pointer, erasing the handle
    removes that element.
  \<^item> \<open>std::map<double, PriceLevelData, Compare>\<close> is the list of its entries in iteration
    order; \<open>std::unordered_map\<close> is a partial function.
  \<^item> Allocation never fails (no \<open>bad_alloc\<close>). An exception that the arguments alone
    decide, the \<open>std::length_error\<close> of \<open>std::vector::reserve\<close>, is a result of the model.
\<close>

type_synonym u64 = "64 word"
type_synonym price = real
type_synonym addr = nat

record Order =
  order_id :: u64
  is_buy :: bool
  price :: price
  quantity :: u64
  timestamp_ns :: u64

text \<open>\<open>struct PriceLevel\<close>, the element type of a snapshot.\<close>

record PriceLevel =
  pl_price :: price
  pl_total_quantity :: u64

text \<open>\<open>OrderBook::PriceLevelData\<close>: the FIFO of order pointers and the running total.\<close>

record PriceLevelData =
  orders :: "addr list"
  total_quantity :: u64

text \<open>\<open>OrderBook::OrderLocation\<close>.\<close>

record OrderLocation =
  loc_price :: price
  loc_it :: addr
  loc_is_buy :: bool

type_synonym side_map = "(price \<times> PriceLevelData) list"

record OrderBook =
  bids :: side_map
  asks :: side_map
  order_lookup :: "u64 \<rightharpoonup> OrderLocation"
  order_pool :: "Order list"

subsection \<open>MemoryPool\<close>

text \<open>
  \<open>MemoryPool::allocate\<close> constructs the record in the next free slot and returns its
  address; the slot is never reused. The pool is the list of all records ever allocated,
  the address is the index.
\<close>

definition allocate :: "Order \<Rightarrow> Order list \<Rightarrow> addr \<times> Order list" where
  "allocate x pool = (length pool, pool @ [x])"

subsection \<open>PriceLevelData\<close>

definition default_level :: PriceLevelData where
  "default_level = \<lparr>orders = [], total_quantity = 0\<rparr>"

text \<open>\<open>PriceLevelData::add_order\<close>: push the pointer to the tail, add its quantity.\<close>

definition level_add_order :: "Order list \<Rightarrow> addr \<Rightarrow> PriceLevelData \<Rightarrow> PriceLevelData" where
  "level_add_order pool order l =
     l\<lparr>orders := orders l @ [order],
       total_quantity := total_quantity l + quantity (pool ! order)\<rparr>"

text \<open>
  \<open>PriceLevelData::remove_order\<close>: subtract the quantity of the order behind the handle,
  then unlink the node. (Erasing a handle that is not a node of this list is undefined in
  C++; \<open>remove1\<close> then leaves the list as it is.)
\<close>

definition remove_order :: "Order list \<Rightarrow> addr \<Rightarrow> PriceLevelData \<Rightarrow> PriceLevelData" where
  "remove_order pool it l =
     l\<lparr>total_quantity := total_quantity l - quantity (pool ! it),
       orders := remove1 it (orders l)\<rparr>"

text \<open>\<open>PriceLevelData::update_quantity\<close>, called after the order's quantity was overwritten.\<close>

definition update_quantity :: "Order list \<Rightarrow> addr \<Rightarrow> u64 \<Rightarrow> PriceLevelData \<Rightarrow> PriceLevelData" where
  "update_quantity pool order old_qty l =
     l\<lparr>total_quantity := total_quantity l - old_qty + quantity (pool ! order)\<rparr>"

subsection \<open>The side maps\<close>

text \<open>
  The comparator of a side: \<open>greater<double>\<close> for bids (\<open>desc = True\<close>), \<open>less<double>\<close>
  for asks.
\<close>

definition key_comp :: "bool \<Rightarrow> price \<Rightarrow> price \<Rightarrow> bool" where
  "key_comp desc a b = (if desc then b < a else a < b)"

text \<open>\<open>find\<close>: the level stored under the key, \<open>None\<close> for \<open>end()\<close>.\<close>

definition map_find :: "price \<Rightarrow> side_map \<Rightarrow> PriceLevelData option" where
  "map_find p m = map_of m p"

text \<open>
  \<open>operator[]\<close>: walk to the first key that does not come before \<open>p\<close>; if \<open>p\<close> comes
  before it (or the end is reached) a default-constructed level is inserted there.
\<close>

fun map_subscript :: "bool \<Rightarrow> price \<Rightarrow> side_map \<Rightarrow> side_map" where
  "map_subscript desc p [] = [(p, default_level)]"
| "map_subscript desc p ((k, v) # m) =
     (if key_comp desc k p then (k, v) # map_subscript desc p m
      else if key_comp desc p k then (p, default_level) # (k, v) # m
      else (k, v) # m)"

text \<open>A mutation of the mapped level through the reference that \<open>operator[]\<close> or an iterator gave.\<close>

fun map_modify :: "price \<Rightarrow> (PriceLevelData \<Rightarrow> PriceLevelData) \<Rightarrow> side_map \<Rightarrow> side_map" where
  "map_modify p f [] = []"
| "map_modify p f ((k, v) # m) =
     (if k = p then (k, f v) # m else (k, v) # map_modify p f m)"

text \<open>\<open>erase(iterator)\<close> of the entry found under the key.\<close>

fun map_erase :: "price \<Rightarrow> side_map \<Rightarrow> side_map" where
  "map_erase p [] = []"
| "map_erase p ((k, v) # m) = (if k = p then m else (k, v) # map_erase p m)"

subsection \<open>OrderBook\<close>

definition empty_book :: OrderBook where
  "empty_book = \<lparr>bids = [], asks = [], order_lookup = Map.empty, order_pool = []\<rparr>"

text \<open>
  \<open>add_order\<close>: allocate a copy of the order, append it to the level at its price on its
  side (created if absent), and store the location under the identity, overwriting any
  earlier entry. The handle \<open>--end()\<close> is the node just pushed.
\<close>

definition add_order :: "Order \<Rightarrow> OrderBook \<Rightarrow> OrderBook" where
  "add_order order b =
     (let (new_order, pool') =
            allocate \<lparr>order_id = order_id order, is_buy = is_buy order, price = price order,
                      quantity = quantity order, timestamp_ns = timestamp_ns order\<rparr>
                     (order_pool b)
      in if is_buy order then
           let it = new_order in
           b\<lparr>order_pool := pool',
             bids := map_modify (price order) (level_add_order pool' new_order)
                       (map_subscript True (price order) (bids b)),
             order_lookup := (order_lookup b)(order_id order \<mapsto>
                 \<lparr>loc_price = price order, loc_it = it, loc_is_buy = is_buy order\<rparr>)\<rparr>
         else
           let it = new_order in
           b\<lparr>order_pool := pool',
             asks := map_modify (price order) (level_add_order pool' new_order)
                       (map_subscript False (price order) (asks b)),
             order_lookup := (order_lookup b)(order_id order \<mapsto>
                 \<lparr>loc_price = price order, loc_it = it, loc_is_buy = is_buy order\<rparr>)\<rparr>)"

text \<open>
  \<open>cancel_order\<close>: \<open>false\<close> without any change when the identity has no location or the
  located level is absent; otherwise remove the order, erase the level if it became empty,
  erase the location, \<open>true\<close>.
\<close>

definition cancel_order :: "u64 \<Rightarrow> OrderBook \<Rightarrow> bool \<times> OrderBook" where
  "cancel_order oid b =
     (case order_lookup b oid of
        None \<Rightarrow> (False, b)
      | Some loc \<Rightarrow>
          if loc_is_buy loc then
            (case map_find (loc_price loc) (bids b) of
               None \<Rightarrow> (False, b)
             | Some price_level \<Rightarrow>
                 let price_level' = remove_order (order_pool b) (loc_it loc) price_level
                 in (True,
                     b\<lparr>bids := (if orders price_level' = []
                                then map_erase (loc_price loc) (bids b)
                                else map_modify (loc_price loc) (\<lambda>_. price_level') (bids b)),
                       order_lookup := (order_lookup b)(oid := None)\<rparr>))
          else
            (case map_find (loc_price loc) (asks b) of
               None \<Rightarrow> (False, b)
             | Some price_level \<Rightarrow>
                 let price_level' = remove_order (order_pool b) (loc_it loc) price_level
                 in (True,
                     b\<lparr>asks := (if orders price_level' = []
                                then map_erase (loc_price loc) (asks b)
                                else map_modify (loc_price loc) (\<lambda>_. price_level') (asks b)),
                       order_lookup := (order_lookup b)(oid := None)\<rparr>)))"

text \<open>
  The quantity-only block of \<open>amend_order\<close> (the else branch up to the zero test):
  overwrite the quantity in the pool record behind the handle and adjust the total of the
  level at the located price. The level is reached with \<open>operator[]\<close>, so an absent level
  would be created.
\<close>

definition amend_in_place :: "OrderLocation \<Rightarrow> u64 \<Rightarrow> OrderBook \<Rightarrow> OrderBook" where
  "amend_in_place loc new_quantity b =
     (let order = loc_it loc;
          old_qty = quantity (order_pool b ! order);
          pool' = (order_pool b)[order := (order_pool b ! order)\<lparr>quantity := new_quantity\<rparr>]
      in if loc_is_buy loc then
           b\<lparr>order_pool := pool',
             bids := map_modify (loc_price loc) (update_quantity pool' order old_qty)
                       (map_subscript True (loc_price loc) (bids b))\<rparr>
         else
           b\<lparr>order_pool := pool',
             asks := map_modify (loc_price loc) (update_quantity pool' order old_qty)
                       (map_subscript False (loc_price loc) (asks b))\<rparr>)"

text \<open>
  \<open>amend_order\<close>. The order is read through the stored handle. A different price: cancel
  (result ignored), then add a new order with the identity, the old side and timestamp,
  the new price and quantity. The same price: update in place, then cancel if the new
  quantity is zero.
\<close>

definition amend_order :: "u64 \<Rightarrow> price \<Rightarrow> u64 \<Rightarrow> OrderBook \<Rightarrow> bool \<times> OrderBook" where
  "amend_order oid new_price new_quantity b =
     (case order_lookup b oid of
        None \<Rightarrow> (False, b)
      | Some loc \<Rightarrow>
          let order = loc_it loc in
          if price (order_pool b ! order) \<noteq> new_price then
            let isb = is_buy (order_pool b ! order);
                timestamp = timestamp_ns (order_pool b ! order);
                b1 = snd (cancel_order oid b)
            in (True,
                add_order \<lparr>order_id = oid, is_buy = isb, price = new_price,
                           quantity = new_quantity, timestamp_ns = timestamp\<rparr> b1)
          else
            let b1 = amend_in_place loc new_quantity b
            in if new_quantity = 0 then cancel_order oid b1 else (True, b1))"

text \<open>
  The loop of \<open>get_snapshot\<close> over one side: stop when \<open>count >= depth\<close>, otherwise emit
  the level's price and total and count it.
\<close>

fun snapshot_loop :: "nat \<Rightarrow> nat \<Rightarrow> side_map \<Rightarrow> PriceLevel list \<Rightarrow> PriceLevel list" where
  "snapshot_loop depth count [] out = out"
| "snapshot_loop depth count ((p, level) # rest) out =
     (if count \<ge> depth then out
      else snapshot_loop depth (Suc count) rest
             (out @ [\<lparr>pl_price = p, pl_total_quantity = total_quantity level\<rparr>]))"

text \<open>
  \<open>std::vector::reserve(n)\<close> throws \<open>std::length_error\<close> when \<open>n\<close> exceeds the vector's
  \<open>max_size()\<close>; otherwise it only changes the capacity, which the model does not track.
  \<open>max_size()\<close> is a constant of the standard library, not of this repository, so it is a
  parameter. It never exceeds \<open>SIZE_MAX / sizeof(PriceLevel)\<close>, and a \<open>PriceLevel\<close> holds a
  \<open>double\<close> and a \<open>uint64_t\<close>.
\<close>

datatype error = Length_error

definition reserve :: "nat \<Rightarrow> nat \<Rightarrow> PriceLevel list \<Rightarrow> error + PriceLevel list" where
  "reserve max_size n v = (if n > max_size then Inl Length_error else Inr v)"

text \<open>
  \<open>get_snapshot\<close> is a const member: it clears both output vectors, reserves \<open>depth\<close>
  elements in each, fills them, and hands the book back as it was. An exception of
  \<open>reserve\<close> leaves the member before any level is read.
\<close>

definition get_snapshot ::
  "nat \<Rightarrow> nat \<Rightarrow> OrderBook \<Rightarrow> (error + PriceLevel list \<times> PriceLevel list) \<times> OrderBook" where
  "get_snapshot max_size depth b =
     (case reserve max_size depth [] of
        Inl e \<Rightarrow> (Inl e, b)
      | Inr bids_out \<Rightarrow>
          (case reserve max_size depth [] of
             Inl e \<Rightarrow> (Inl e, b)
           | Inr asks_out \<Rightarrow>
               (Inr (snapshot_loop depth 0 (bids b) bids_out,
                     snapshot_loop depth 0 (asks b) asks_out), b)))"

definition get_total_orders :: "OrderBook \<Rightarrow> nat" where
  "get_total_orders b = card (dom (order_lookup b))"

definition get_bid_levels :: "OrderBook \<Rightarrow> nat" where
  "get_bid_levels b = length (bids b)"

definition get_ask_levels :: "OrderBook \<Rightarrow> nat" where
  "get_ask_levels b = length (asks b)"

subsection \<open>Invariants and reachable states\<close>

text \<open>The entries of a side map are strictly ordered by the side's comparator.\<close>

definition side_sorted :: "bool \<Rightarrow> side_map \<Rightarrow> bool" where
  "side_sorted desc m = sorted_wrt (key_comp desc) (map fst m)"

text \<open>
  A level stored under price \<open>p\<close> on a side: it is not empty, no handle occurs twice, every
  handle is an allocated record with that price and side, and the total is the sum of the
  quantities of its orders (a sum of \<open>uint64_t\<close>, so modulo \<open>2^64\<close>).
\<close>

definition level_ok :: "Order list \<Rightarrow> bool \<Rightarrow> price \<Rightarrow> PriceLevelData \<Rightarrow> bool" where
  "level_ok pool side p l \<longleftrightarrow>
     orders l \<noteq> [] \<and> distinct (orders l) \<and>
     (\<forall>a \<in> set (orders l). a < length pool \<and> price (pool ! a) = p \<and> is_buy (pool ! a) = side) \<and>
     total_quantity l = sum_list (map (\<lambda>a. quantity (pool ! a)) (orders l))"

definition side_ok :: "Order list \<Rightarrow> bool \<Rightarrow> side_map \<Rightarrow> bool" where
  "side_ok pool side m \<longleftrightarrow>
     side_sorted side m \<and> (\<forall>p l. map_find p m = Some l \<longrightarrow> level_ok pool side p l)"

definition side_of :: "bool \<Rightarrow> OrderBook \<Rightarrow> side_map" where
  "side_of buy b = (if buy then bids b else asks b)"

text \<open>
  A location stored under an identity: its level exists on its side, its handle is in that
  level's sequence, and the record behind the handle carries the identity.
\<close>

definition loc_ok :: "OrderBook \<Rightarrow> u64 \<Rightarrow> OrderLocation \<Rightarrow> bool" where
  "loc_ok b oid loc \<longleftrightarrow>
     (\<exists>l. map_find (loc_price loc) (side_of (loc_is_buy loc) b) = Some l \<and>
          loc_it loc \<in> set (orders l)) \<and>
     order_id (order_pool b ! loc_it loc) = oid"

definition book_inv :: "OrderBook \<Rightarrow> bool" where
  "book_inv b \<longleftrightarrow>
     side_ok (order_pool b) True (bids b) \<and>
     side_ok (order_pool b) False (asks b) \<and>
     finite (dom (order_lookup b)) \<and>
     (\<forall>oid loc. order_lookup b oid = Some loc \<longrightarrow> loc_ok b oid loc)"

text \<open>The states the public mutators can produce from a new book.\<close>

inductive reachable :: "OrderBook \<Rightarrow> bool" where
  reachable_empty: "reachable empty_book"
| reachable_add: "reachable b \<Longrightarrow> reachable (add_order order b)"
| reachable_cancel: "reachable b \<Longrightarrow> reachable (snd (cancel_order oid b))"
| reachable_amend: "reachable b \<Longrightarrow> reachable (snd (amend_order oid new_price new_quantity b))"

subsection \<open>Notions used by the properties\<close>

text \<open>
  The sum of the quantities of the orders in a level's sequence: in \<open>uint64_t\<close>
  arithmetic, and as a natural number.
\<close>

definition level_sum :: "Order list \<Rightarrow> PriceLevelData \<Rightarrow> u64" where
  "level_sum pool l = sum_list (map (\<lambda>a. quantity (pool ! a)) (orders l))"

definition level_sum_nat :: "Order list \<Rightarrow> PriceLevelData \<Rightarrow> nat" where
  "level_sum_nat pool l = sum_list (map (\<lambda>a. unat (quantity (pool ! a))) (orders l))"

text \<open>The three buy orders at price 100 of the repository's tests, and the book holding them.\<close>

definition test_order1 :: Order where
  "test_order1 = \<lparr>order_id = 1, is_buy = True, price = 100, quantity = 10, timestamp_ns = 1000\<rparr>"

definition test_order2 :: Order where
  "test_order2 = \<lparr>order_id = 2, is_buy = True, price = 100, quantity = 20, timestamp_ns = 2000\<rparr>"

definition test_order3 :: Order where
  "test_order3 = \<lparr>order_id = 3, is_buy = True, price = 100, quantity = 30, timestamp_ns = 3000\<rparr>"

definition test_book :: OrderBook where
  "test_book = add_order test_order3 (add_order test_order2 (add_order test_order1 empty_book))"

text \<open>The snapshot entry of a level: its price and its aggregate quantity.\<close>

definition level_view :: "price \<times> PriceLevelData \<Rightarrow> PriceLevel" where
  "level_view e = \<lparr>pl_price = fst e, pl_total_quantity = total_quantity (snd e)\<rparr>"

text \<open>The book of the snapshot-ordering test: bids at 100, 102, 101 and asks at 103, 105, 104.\<close>

definition ordering_book :: OrderBook where
  "ordering_book =
     add_order \<lparr>order_id = 6, is_buy = False, price = 104, quantity = 60, timestamp_ns = 6000\<rparr>
    (add_order \<lparr>order_id = 5, is_buy = False, price = 105, quantity = 50, timestamp_ns = 5000\<rparr>
    (add_order \<lparr>order_id = 4, is_buy = False, price = 103, quantity = 40, timestamp_ns = 4000\<rparr>
    (add_order \<lparr>order_id = 3, is_buy = True, price = 101, quantity = 30, timestamp_ns = 3000\<rparr>
    (add_order \<lparr>order_id = 2, is_buy = True, price = 102, quantity = 20, timestamp_ns = 2000\<rparr>
    (add_order \<lparr>order_id = 1, is_buy = True, price = 100, quantity = 10, timestamp_ns = 1000\<rparr>
       empty_book)))))"

text \<open>The order sequence recorded at a price of a side; empty when the side has no such key.\<close>

definition orders_at :: "price \<Rightarrow> side_map \<Rightarrow> addr list" where
  "orders_at p m = (case map_find p m of None \<Rightarrow> [] | Some l \<Rightarrow> orders l)"

text \<open>The pool records that some level of the book refers to.\<close>

definition live_orders :: "OrderBook \<Rightarrow> addr set" where
  "live_orders b = (\<Union>e \<in> set (bids b) \<union> set (asks b). set (orders (snd e)))"

text \<open>
  Two books hold the same order book when both side maps, the location index and the number
  of pool records are equal and the pools agree on every record that a level refers to. They
  may differ in records that no level refers to any more: the pool keeps the records of
  cancelled orders, and no operation reads them.
\<close>

definition same_book :: "OrderBook \<Rightarrow> OrderBook \<Rightarrow> bool" where
  "same_book b1 b2 \<longleftrightarrow>
     bids b1 = bids b2 \<and> asks b1 = asks b2 \<and> order_lookup b1 = order_lookup b2 \<and>
     length (order_pool b1) = length (order_pool b2) \<and>
     (\<forall>a \<in> live_orders b1. order_pool b1 ! a = order_pool b2 ! a)"

text \<open>The public mutators as a datatype, to speak about sequences of calls.\<close>

datatype book_op = Add Order | Cancel u64 | Amend u64 price u64

fun op_state :: "book_op \<Rightarrow> OrderBook \<Rightarrow> OrderBook" where
  "op_state (Add order) b = add_order order b"
| "op_state (Cancel oid) b = snd (cancel_order oid b)"
| "op_state (Amend oid new_price new_quantity) b = snd (amend_order oid new_price new_quantity b)"

text \<open>What a call returns: nothing for \<open>add_order\<close> (void), the boolean for the other two.\<close>

fun op_result :: "book_op \<Rightarrow> OrderBook \<Rightarrow> bool option" where
  "op_result (Add order) b = None"
| "op_result (Cancel oid) b = Some (fst (cancel_order oid b))"
| "op_result (Amend oid new_price new_quantity) b =
     Some (fst (amend_order oid new_price new_quantity b))"

fun run :: "book_op list \<Rightarrow> OrderBook \<Rightarrow> OrderBook" where
  "run [] b = b"
| "run (x # xs) b = run xs (op_state x b)"

fun results :: "book_op list \<Rightarrow> OrderBook \<Rightarrow> bool option list" where
  "results [] b = []"
| "results (x # xs) b = op_result x b # results xs (op_state x b)"


text \<open>The number of order records that occupy levels, over both sides.\<close>

definition level_records :: "OrderBook \<Rightarrow> nat" where
  "level_records b = sum_list (map (\<lambda>e. length (orders (snd e))) (bids b @ asks b))"

text \<open>
  A record that occupies a level while no location refers to it: \<open>cancel_order\<close> and
  \<open>amend_order\<close> reach orders through the location index only.
\<close>

definition orphaned :: "OrderBook \<Rightarrow> addr \<Rightarrow> bool" where
  "orphaned b a \<longleftrightarrow>
     a \<in> live_orders b \<and> (\<forall>oid loc. order_lookup b oid = Some loc \<longrightarrow> loc_it loc \<noteq> a)"

text \<open>
  Counting the calls of a sequence that satisfy a condition, the condition being evaluated
  in the state in which the call is made.
\<close>

fun count_ops :: "(book_op \<Rightarrow> OrderBook \<Rightarrow> bool) \<Rightarrow> book_op list \<Rightarrow> OrderBook \<Rightarrow> nat" where
  "count_ops P [] b = 0"
| "count_ops P (x # xs) b = (if P x b then 1 else 0) + count_ops P xs (op_state x b)"

text \<open>The kinds of calls that the count of resting identities is made of.\<close>

fun is_add :: "book_op \<Rightarrow> OrderBook \<Rightarrow> bool" where
  "is_add (Add order) b = True"
| "is_add _ b = False"

text \<open>An add whose identity already has a location: the entry is overwritten.\<close>

fun is_duplicate_add :: "book_op \<Rightarrow> OrderBook \<Rightarrow> bool" where
  "is_duplicate_add (Add order) b = (order_lookup b (order_id order) \<noteq> None)"
| "is_duplicate_add _ b = False"

fun is_successful_cancel :: "book_op \<Rightarrow> OrderBook \<Rightarrow> bool" where
  "is_successful_cancel (Cancel oid) b = fst (cancel_order oid b)"
| "is_successful_cancel _ b = False"

text \<open>A zero-quantity amend: a successful \<open>amend_order\<close> call whose new quantity is zero.\<close>

fun is_zero_quantity_amend :: "book_op \<Rightarrow> OrderBook \<Rightarrow> bool" where
  "is_zero_quantity_amend (Amend oid new_price new_quantity) b =
     (new_quantity = 0 \<and> fst (amend_order oid new_price new_quantity b))"
| "is_zero_quantity_amend _ b = False"

text \<open>
  A zero-quantity amend that leaves the price unchanged: the identity has a location, the new
  price is the order's price, and the new quantity is zero. This is the amend that ends in
  \<open>cancel_order\<close>.
\<close>

fun is_zero_quantity_amend_same_price :: "book_op \<Rightarrow> OrderBook \<Rightarrow> bool" where
  "is_zero_quantity_amend_same_price (Amend oid new_price new_quantity) b =
     (case order_lookup b oid of
        None \<Rightarrow> False
      | Some loc \<Rightarrow> new_quantity = 0 \<and> price (order_pool b ! loc_it loc) = new_price)"
| "is_zero_quantity_amend_same_price _ b = False"

text \<open>Add an order, then amend it to another price with quantity zero.\<close>

definition zero_amend_ops :: "book_op list" where
  "zero_amend_ops = [Add test_order1, Amend 1 101 0]"

text \<open>Add an order, then add a second order with the same identity at another price.\<close>

definition duplicate_order :: Order where
  "duplicate_order =
     \<lparr>order_id = 1, is_buy = True, price = 101, quantity = 5, timestamp_ns = 2000\<rparr>"

text \<open>
  Two buy orders at price 100 whose quantities, \<open>2^64 - 1\<close> and \<open>2\<close>, add up to more than a
  \<open>uint64_t\<close> holds.
\<close>

definition overflow_book :: OrderBook where
  "overflow_book =
     add_order \<lparr>order_id = 2, is_buy = True, price = 100, quantity = 2, timestamp_ns = 2000\<rparr>
    (add_order \<lparr>order_id = 1, is_buy = True, price = 100, quantity = 18446744073709551615,
                timestamp_ns = 1000\<rparr> empty_book)"

section \<open>Side maps\<close>

lemma key_comp_trans: "key_comp d a b \<Longrightarrow> key_comp d b c \<Longrightarrow> key_comp d a c"
  by (auto simp: key_comp_def split: if_splits)

lemma key_comp_irrefl: "\<not> key_comp d a a"
  by (simp add: key_comp_def)

lemma key_comp_cases: "key_comp d a b \<or> a = b \<or> key_comp d b a"
  by (auto simp: key_comp_def)

lemma key_comp_asym: "key_comp d a b \<Longrightarrow> \<not> key_comp d b a"
  by (auto simp: key_comp_def split: if_splits)

lemma side_sorted_Nil: "side_sorted d []"
  by (simp add: side_sorted_def)

lemma side_sorted_Cons:
  "side_sorted d ((k, v) # m) \<longleftrightarrow> (\<forall>x \<in> set m. key_comp d k (fst x)) \<and> side_sorted d m"
  by (auto simp: side_sorted_def)

lemma map_of_Some_key: "map_of m p = Some l \<Longrightarrow> p \<in> fst ` set m"
  by (metis map_of_eq_None_iff option.distinct(1))

lemma side_sorted_head_absent:
  "side_sorted d ((k, v) # m) \<Longrightarrow> \<not> key_comp d k p \<Longrightarrow> map_of m p = None"
proof (rule ccontr)
  assume s: "side_sorted d ((k, v) # m)" and n: "\<not> key_comp d k p" and "map_of m p \<noteq> None"
  then obtain w where "map_of m p = Some w" by auto
  then have "(p, w) \<in> set m" by (rule map_of_SomeD)
  with s have "key_comp d k p" by (auto simp: side_sorted_Cons)
  with n show False by simp
qed

lemma side_sorted_distinct: "side_sorted d m \<Longrightarrow> distinct (map fst m)"
proof (induction m)
  case Nil
  then show ?case by simp
next
  case (Cons kv m)
  obtain k v where kv: "kv = (k, v)" by (cases kv)
  from Cons.prems kv have "\<forall>x \<in> set m. key_comp d k (fst x)" and sm: "side_sorted d m"
    by (simp_all add: side_sorted_Cons)
  then have "k \<notin> fst ` set m" using key_comp_irrefl by force
  with Cons.IH [OF sm] kv show ?case by simp
qed

lemma map_of_map_subscript:
  "side_sorted d m \<Longrightarrow>
   map_of (map_subscript d p m) =
     (case map_of m p of None \<Rightarrow> (map_of m)(p \<mapsto> default_level) | Some v \<Rightarrow> map_of m)"
proof (induction m)
  case Nil
  then show ?case by simp
next
  case (Cons kv m)
  obtain k v where kv: "kv = (k, v)" by (cases kv)
  from Cons.prems kv have sm: "side_sorted d m" by (simp add: side_sorted_Cons)
  show ?case
  proof (cases "key_comp d k p")
    case True
    then have "k \<noteq> p" using key_comp_irrefl by auto
    with True Cons.IH [OF sm] kv show ?thesis
      by (auto split: option.splits simp: fun_upd_twist)
  next
    case False
    with Cons.prems kv have ab: "map_of m p = None" by (auto dest: side_sorted_head_absent)
    show ?thesis
    proof (cases "key_comp d p k")
      case True
      then have "k \<noteq> p" using key_comp_irrefl by auto
      with True False kv ab show ?thesis by (auto simp: fun_upd_twist)
    next
      case F2: False
      with False have "k = p" using key_comp_cases [of d k p] by auto
      with False F2 kv show ?thesis by auto
    qed
  qed
qed

lemma set_map_subscript_keys:
  "fst ` set (map_subscript d p m) = insert p (fst ` set m)"
proof (induction m)
  case Nil
  then show ?case by simp
next
  case (Cons kv m)
  obtain k v where kv: "kv = (k, v)" by (cases kv)
  have "\<not> key_comp d k p \<Longrightarrow> \<not> key_comp d p k \<Longrightarrow> k = p"
    using key_comp_cases [of d k p] by blast
  with Cons.IH kv show ?case by auto
qed

lemma side_sorted_map_subscript:
  "side_sorted d m \<Longrightarrow> side_sorted d (map_subscript d p m)"
proof (induction m)
  case Nil
  then show ?case by (simp add: side_sorted_def)
next
  case (Cons kv m)
  obtain k v where kv: "kv = (k, v)" by (cases kv)
  from Cons.prems kv have sm: "side_sorted d m" and hd: "\<forall>x \<in> set m. key_comp d k (fst x)"
    by (simp_all add: side_sorted_Cons)
  show ?case
  proof (cases "key_comp d k p")
    case True
    have "\<forall>x \<in> set (map_subscript d p m). key_comp d k (fst x)"
    proof
      fix x assume "x \<in> set (map_subscript d p m)"
      then have "fst x \<in> insert p (fst ` set m)"
        using set_map_subscript_keys [of d p m] by blast
      with True hd show "key_comp d k (fst x)" by auto
    qed
    with True Cons.IH [OF sm] kv show ?thesis by (simp add: side_sorted_Cons)
  next
    case False
    show ?thesis
    proof (cases "key_comp d p k")
      case True
      with hd have "\<forall>x \<in> set m. key_comp d p (fst x)" by (blast intro: key_comp_trans)
      with True False kv Cons.prems show ?thesis by (simp add: side_sorted_Cons)
    next
      case F2: False
      with False kv Cons.prems show ?thesis by simp
    qed
  qed
qed

lemma map_subscript_present:
  "side_sorted d m \<Longrightarrow> map_of m p = Some l \<Longrightarrow> map_subscript d p m = m"
proof (induction m)
  case Nil
  then show ?case by simp
next
  case (Cons kv m)
  obtain k v where kv: "kv = (k, v)" by (cases kv)
  from Cons.prems kv have sm: "side_sorted d m" by (simp add: side_sorted_Cons)
  show ?case
  proof (cases "k = p")
    case True
    with kv show ?thesis by (simp add: key_comp_irrefl)
  next
    case False
    with Cons.prems kv have mp: "map_of m p = Some l" by simp
    then have "(p, l) \<in> set m" by (rule map_of_SomeD)
    with Cons.prems kv have "key_comp d k p" by (auto simp: side_sorted_Cons)
    with Cons.IH [OF sm mp] kv show ?thesis by simp
  qed
qed

lemma length_map_subscript_absent:
  "map_of m p = None \<Longrightarrow> length (map_subscript d p m) = Suc (length m)"
proof (induction m)
  case Nil
  then show ?case by simp
next
  case (Cons kv m)
  obtain k v where kv: "kv = (k, v)" by (cases kv)
  with Cons.prems have ne: "k \<noteq> p" and ab: "map_of m p = None" by (auto split: if_splits)
  from ne have "key_comp d k p \<or> key_comp d p k" using key_comp_cases [of d k p] by blast
  with Cons.IH [OF ab] kv show ?case by auto
qed

lemma map_fst_map_modify: "map fst (map_modify p f m) = map fst m"
  by (induction m) auto


lemma side_sorted_map_modify: "side_sorted d (map_modify p f m) = side_sorted d m"
  by (simp add: side_sorted_def map_fst_map_modify)

lemma map_of_map_modify:
  "map_of (map_modify p f m) =
     (case map_of m p of None \<Rightarrow> map_of m | Some v \<Rightarrow> (map_of m)(p \<mapsto> f v))"
  by (induction m) (auto split: option.splits)

lemma map_modify_absent: "map_of m p = None \<Longrightarrow> map_modify p f m = m"
  by (induction m) (auto split: if_splits)

lemma map_modify_map_modify:
  "map_modify p g (map_modify p f m) = map_modify p (\<lambda>l. g (f l)) m"
  by (induction m) auto

lemma map_erase_map_modify: "map_erase p (map_modify p f m) = map_erase p m"
  by (induction m) auto

lemma set_map_erase_subset: "set (map_erase p m) \<subseteq> set m"
  by (induction m) (auto split: if_splits)

lemma side_sorted_map_erase: "side_sorted d m \<Longrightarrow> side_sorted d (map_erase p m)"
proof (induction m)
  case Nil
  then show ?case by simp
next
  case (Cons kv m)
  obtain k v where kv: "kv = (k, v)" by (cases kv)
  from Cons.prems kv have hd: "\<forall>x \<in> set m. key_comp d k (fst x)" and sm: "side_sorted d m"
    by (simp_all add: side_sorted_Cons)
  from hd have "\<forall>x \<in> set (map_erase p m). key_comp d k (fst x)"
    using set_map_erase_subset [of p m] by blast
  with Cons.IH [OF sm] sm kv show ?case by (simp add: side_sorted_Cons)
qed

lemma map_of_map_erase:
  "side_sorted d m \<Longrightarrow> map_of (map_erase p m) = (map_of m)(p := None)"
proof (induction m)
  case Nil
  then show ?case by simp
next
  case (Cons kv m)
  obtain k v where kv: "kv = (k, v)" by (cases kv)
  from Cons.prems kv have sm: "side_sorted d m" by (simp add: side_sorted_Cons)
  show ?case
  proof (cases "k = p")
    case True
    have "map_of m p = None"
      using side_sorted_head_absent [of d k v m p] Cons.prems kv True key_comp_irrefl [of d p]
      by simp
    with True kv show ?thesis by (auto simp: fun_eq_iff)
  next
    case False
    with Cons.IH [OF sm] kv show ?thesis by (auto simp: fun_eq_iff)
  qed
qed


lemma map_erase_absent: "map_of m p = None \<Longrightarrow> map_erase p m = m"
  by (induction m) (auto split: if_splits)

section \<open>Preservation of the invariants\<close>

lemma sum_quantity_cong:
  "(\<And>a. a \<in> set xs \<Longrightarrow> pool' ! a = pool ! a) \<Longrightarrow>
   sum_list (map (\<lambda>a. quantity (pool' ! a)) xs) = sum_list (map (\<lambda>a. quantity (pool ! a)) xs)"
  by (induction xs) auto

lemma level_ok_pool_eq:
  assumes ok: "level_ok pool side p l"
    and eq: "\<And>a. a \<in> set (orders l) \<Longrightarrow> pool' ! a = pool ! a"
    and len: "length pool \<le> length pool'"
  shows "level_ok pool' side p l"
proof -
  have "sum_list (map (\<lambda>a. quantity (pool' ! a)) (orders l)) =
        sum_list (map (\<lambda>a. quantity (pool ! a)) (orders l))"
    using eq by (rule sum_quantity_cong)
  with ok eq len show ?thesis by (fastforce simp: level_ok_def)
qed

lemma level_ok_pool_append:
  "level_ok pool side p l \<Longrightarrow> level_ok (pool @ [x]) side p l"
proof -
  assume ok: "level_ok pool side p l"
  then have "\<And>a. a \<in> set (orders l) \<Longrightarrow> (pool @ [x]) ! a = pool ! a"
    by (simp add: level_ok_def nth_append)
  then show ?thesis using level_ok_pool_eq [OF ok, of "pool @ [x]"] by simp
qed

lemma level_ok_add:
  assumes "l = default_level \<or> level_ok pool side p l"
    and "price x = p" and "is_buy x = side"
  shows "level_ok (pool @ [x]) side p (level_add_order (pool @ [x]) (length pool) l)"
proof -
  let ?pool = "pool @ [x]"
  from assms(1) have lt: "\<forall>a \<in> set (orders l). a < length pool"
    by (auto simp: level_ok_def default_level_def)
  then have eq: "\<And>a. a \<in> set (orders l) \<Longrightarrow> ?pool ! a = pool ! a" by (simp add: nth_append)
  then have meq: "sum_list (map (\<lambda>a. quantity (?pool ! a)) (orders l)) =
                  sum_list (map (\<lambda>a. quantity (pool ! a)) (orders l))"
    by (rule sum_quantity_cong)
  from assms(1) have d: "distinct (orders l)" by (auto simp: level_ok_def default_level_def)
  from lt have nin: "length pool \<notin> set (orders l)" by auto
  from assms(1) have tot: "total_quantity l = sum_list (map (\<lambda>a. quantity (pool ! a)) (orders l))"
    by (auto simp: level_ok_def default_level_def)
  from assms(1) have rec: "\<forall>a \<in> set (orders l). price (pool ! a) = p \<and> is_buy (pool ! a) = side"
    by (auto simp: level_ok_def default_level_def)
  have new: "?pool ! length pool = x" by simp
  have 1: "orders (level_add_order ?pool (length pool) l) = orders l @ [length pool]"
    by (simp add: level_add_order_def)
  have 2: "total_quantity (level_add_order ?pool (length pool) l) = total_quantity l + quantity x"
    by (simp add: level_add_order_def)
  have 3: "\<forall>a \<in> set (orders l @ [length pool]).
             a < length ?pool \<and> price (?pool ! a) = p \<and> is_buy (?pool ! a) = side"
  proof
    fix a assume "a \<in> set (orders l @ [length pool])"
    then consider "a \<in> set (orders l)" | "a = length pool" by auto
    then show "a < length ?pool \<and> price (?pool ! a) = p \<and> is_buy (?pool ! a) = side"
    proof cases
      case 1
      with lt rec eq [OF 1] show ?thesis by auto
    next
      case 2
      with assms(2,3) show ?thesis by simp
    qed
  qed
  have 4: "sum_list (map (\<lambda>a. quantity (?pool ! a)) (orders l @ [length pool])) =
           total_quantity l + quantity x"
    using meq tot by simp
  show ?thesis
    unfolding level_ok_def 1 2 using d nin 3 4 by simp
qed

lemma side_ok_add:
  assumes ok: "side_ok pool side m" and "price x = p" and "is_buy x = side"
  shows "side_ok (pool @ [x]) side
           (map_modify p (level_add_order (pool @ [x]) (length pool)) (map_subscript side p m))"
proof -
  let ?m1 = "map_subscript side p m"
  let ?f = "level_add_order (pool @ [x]) (length pool)"
  from ok have s: "side_sorted side m" by (simp add: side_ok_def)
  then have s1: "side_sorted side ?m1" by (rule side_sorted_map_subscript)
  then have s2: "side_sorted side (map_modify p ?f ?m1)" by (simp add: side_sorted_map_modify)
  have lv: "level_ok (pool @ [x]) side q l" if f: "map_of (map_modify p ?f ?m1) q = Some l" for q l
  proof (cases "q = p")
    case True
    show ?thesis
    proof (cases "map_of m p")
      case None
      with f True s have "l = ?f default_level"
        by (simp add: map_of_map_modify map_of_map_subscript)
      with assms(2,3) True show ?thesis using level_ok_add [of default_level pool side p x] by simp
    next
      case (Some l0)
      with f True s have l: "l = ?f l0"
        by (simp add: map_of_map_modify map_of_map_subscript)
      from Some ok have "level_ok pool side p l0" by (simp add: side_ok_def map_find_def)
      with assms(2,3) True l show ?thesis using level_ok_add [of l0 pool side p x] by simp
    qed
  next
    case False
    with f s have "map_of m q = Some l"
      by (auto simp: map_of_map_modify map_of_map_subscript split: option.splits if_splits)
    with ok have "level_ok pool side q l" by (simp add: side_ok_def map_find_def)
    then show ?thesis by (rule level_ok_pool_append)
  qed
  with s2 show ?thesis by (simp add: side_ok_def map_find_def)
qed

lemma side_ok_pool_append: "side_ok pool side m \<Longrightarrow> side_ok (pool @ [x]) side m"
  by (auto simp: side_ok_def intro: level_ok_pool_append)


lemma copy_Order [simp]:
  "\<lparr>order_id = order_id x, is_buy = is_buy x, price = price x, quantity = quantity x,
     timestamp_ns = timestamp_ns x\<rparr> = (x :: Order)"
  by (cases x) simp

lemma book_inv_sides:
  "book_inv b \<longleftrightarrow>
     (\<forall>d. side_ok (order_pool b) d (side_of d b)) \<and> finite (dom (order_lookup b)) \<and>
     (\<forall>oid loc. order_lookup b oid = Some loc \<longrightarrow> loc_ok b oid loc)"
proof -
  have "(\<forall>d. side_ok (order_pool b) d (side_of d b)) \<longleftrightarrow>
        side_ok (order_pool b) True (bids b) \<and> side_ok (order_pool b) False (asks b)"
    by (metis (full_types) side_of_def)
  then show ?thesis by (simp add: book_inv_def)
qed

lemma order_pool_add_order: "order_pool (add_order x b) = order_pool b @ [x]"
  by (simp add: add_order_def allocate_def)

lemma order_lookup_add_order:
  "order_lookup (add_order x b) =
     (order_lookup b)(order_id x \<mapsto>
        \<lparr>loc_price = price x, loc_it = length (order_pool b), loc_is_buy = is_buy x\<rparr>)"
  by (simp add: add_order_def allocate_def)

lemma side_of_add_order:
  "side_of d (add_order x b) =
     (if d = is_buy x then
        map_modify (price x) (level_add_order (order_pool b @ [x]) (length (order_pool b)))
          (map_subscript d (price x) (side_of d b))
      else side_of d b)"
  by (simp add: add_order_def allocate_def side_of_def)

lemma map_find_add:
  "side_sorted d m \<Longrightarrow>
   map_find q (map_modify p f (map_subscript d p m)) =
     (if q = p then Some (f (case map_find p m of None \<Rightarrow> default_level | Some l \<Rightarrow> l))
      else map_find q m)"
  by (auto simp: map_find_def map_of_map_modify map_of_map_subscript split: option.splits)

lemma loc_it_bound:
  assumes "book_inv b" and "order_lookup b oid = Some loc"
  shows "loc_it loc < length (order_pool b)"
    and "price (order_pool b ! loc_it loc) = loc_price loc"
    and "is_buy (order_pool b ! loc_it loc) = loc_is_buy loc"
    and "order_id (order_pool b ! loc_it loc) = oid"
proof -
  from assms have lo: "loc_ok b oid loc" by (simp add: book_inv_def)
  then obtain l where l: "map_find (loc_price loc) (side_of (loc_is_buy loc) b) = Some l"
    and a: "loc_it loc \<in> set (orders l)" by (auto simp: loc_ok_def)
  from assms(1) have "side_ok (order_pool b) (loc_is_buy loc) (side_of (loc_is_buy loc) b)"
    by (simp add: book_inv_sides)
  with l have "level_ok (order_pool b) (loc_is_buy loc) (loc_price loc) l"
    by (simp add: side_ok_def)
  with a show "loc_it loc < length (order_pool b)"
    and "price (order_pool b ! loc_it loc) = loc_price loc"
    and "is_buy (order_pool b ! loc_it loc) = loc_is_buy loc"
    by (auto simp: level_ok_def)
  from lo show "order_id (order_pool b ! loc_it loc) = oid" by (simp add: loc_ok_def)
qed

lemma add_order_inv:
  assumes inv: "book_inv b"
  shows "book_inv (add_order x b)"
proof -
  let ?b = "add_order x b"
  let ?pool = "order_pool b"
  have sides: "side_ok (order_pool ?b) d (side_of d ?b)" for d
  proof -
    from inv have ok: "side_ok ?pool d (side_of d b)" by (simp add: book_inv_sides)
    show ?thesis
    proof (cases "d = is_buy x")
      case True
      with side_ok_add [OF ok, of x "price x"] show ?thesis
        by (simp add: side_of_add_order order_pool_add_order)
    next
      case False
      with side_ok_pool_append [OF ok] show ?thesis
        by (simp add: side_of_add_order order_pool_add_order)
    qed
  qed
  from inv have fin: "finite (dom (order_lookup ?b))"
    by (simp add: order_lookup_add_order book_inv_def)
  have locs: "loc_ok ?b oid loc" if lk: "order_lookup ?b oid = Some loc" for oid loc
  proof -
    from inv have srt: "side_sorted (loc_is_buy loc) (side_of (loc_is_buy loc) b)"
      by (simp add: book_inv_sides side_ok_def)
    show ?thesis
    proof (cases "oid = order_id x")
      case True
      with lk have loc: "loc = \<lparr>loc_price = price x, loc_it = length ?pool, loc_is_buy = is_buy x\<rparr>"
        by (simp add: order_lookup_add_order)
      from inv have "side_sorted (is_buy x) (side_of (is_buy x) b)"
        by (simp add: book_inv_sides side_ok_def)
      then show ?thesis using True
        by (simp add: loc loc_ok_def side_of_add_order map_find_add order_pool_add_order
            level_add_order_def)
    next
      case False
      with lk have old: "order_lookup b oid = Some loc" by (simp add: order_lookup_add_order)
      with inv have "loc_ok b oid loc" by (simp add: book_inv_def)
      then obtain l where l: "map_find (loc_price loc) (side_of (loc_is_buy loc) b) = Some l"
        and a: "loc_it loc \<in> set (orders l)" by (auto simp: loc_ok_def)
      from loc_it_bound [OF inv old] have lt: "loc_it loc < length ?pool"
        and oid: "order_id (?pool ! loc_it loc) = oid" by simp_all
      from l a srt
      have "\<exists>l'. map_find (loc_price loc) (side_of (loc_is_buy loc) ?b) = Some l' \<and>
                 loc_it loc \<in> set (orders l')"
        by (auto simp: side_of_add_order map_find_add level_add_order_def)
      with lt oid show ?thesis by (simp add: loc_ok_def order_pool_add_order nth_append)
    qed
  qed
  from sides fin locs show ?thesis by (simp add: book_inv_sides)
qed


lemma cancel_order_absent: "order_lookup b oid = None \<Longrightarrow> cancel_order oid b = (False, b)"
  by (simp add: cancel_order_def)

lemma cancel_order_no_level:
  "order_lookup b oid = Some loc \<Longrightarrow>
   map_find (loc_price loc) (side_of (loc_is_buy loc) b) = None \<Longrightarrow>
   cancel_order oid b = (False, b)"
  by (cases "loc_is_buy loc") (simp_all add: cancel_order_def side_of_def)

lemma cancel_order_present:
  assumes "order_lookup b oid = Some loc"
    and "map_find (loc_price loc) (side_of (loc_is_buy loc) b) = Some l"
  shows "fst (cancel_order oid b) = True"
    and "order_pool (snd (cancel_order oid b)) = order_pool b"
    and "order_lookup (snd (cancel_order oid b)) = (order_lookup b)(oid := None)"
    and "side_of d (snd (cancel_order oid b)) =
           (if d = loc_is_buy loc then
              (if remove1 (loc_it loc) (orders l) = [] then map_erase (loc_price loc) (side_of d b)
               else map_modify (loc_price loc) (\<lambda>_. remove_order (order_pool b) (loc_it loc) l)
                      (side_of d b))
            else side_of d b)"
  using assms
  by (cases "loc_is_buy loc"; cases d; simp add: cancel_order_def side_of_def Let_def remove_order_def)+

lemma map_find_cancel:
  "side_sorted d m \<Longrightarrow> map_find p m = Some l \<Longrightarrow>
   map_find q (if c then map_erase p m else map_modify p (\<lambda>_. l') m) =
     (if q = p then (if c then None else Some l') else map_find q m)"
  by (auto simp: map_find_def map_of_map_modify map_of_map_erase)

lemma level_ok_remove:
  assumes ok: "level_ok pool side p l" and a: "a \<in> set (orders l)"
    and ne: "remove1 a (orders l) \<noteq> []"
  shows "level_ok pool side p (remove_order pool a l)"
proof -
  from ok have d: "distinct (orders l)"
    and tot: "total_quantity l = sum_list (map (\<lambda>a. quantity (pool ! a)) (orders l))"
    and rec: "\<forall>a \<in> set (orders l). a < length pool \<and> price (pool ! a) = p \<and> is_buy (pool ! a) = side"
    by (simp_all add: level_ok_def)
  from a have "sum_list (map (\<lambda>a. quantity (pool ! a)) (orders l)) =
      quantity (pool ! a) + sum_list (map (\<lambda>a. quantity (pool ! a)) (remove1 a (orders l)))"
    by (rule sum_list_map_remove1)
  with tot have "total_quantity l - quantity (pool ! a) =
      sum_list (map (\<lambda>a. quantity (pool ! a)) (remove1 a (orders l)))" by simp
  moreover from rec have "\<forall>a \<in> set (remove1 a (orders l)).
      a < length pool \<and> price (pool ! a) = p \<and> is_buy (pool ! a) = side"
    using set_remove1_subset [of a "orders l"] by blast
  ultimately show ?thesis using d ne by (simp add: level_ok_def remove_order_def)
qed

lemma side_ok_cancel:
  assumes ok: "side_ok pool side m" and l: "map_find p m = Some l" and a: "a \<in> set (orders l)"
  shows "side_ok pool side
           (if remove1 a (orders l) = [] then map_erase p m
            else map_modify p (\<lambda>_. remove_order pool a l) m)"
    (is "side_ok pool side ?m")
proof -
  from ok have s: "side_sorted side m" by (simp add: side_ok_def)
  then have s': "side_sorted side ?m"
    by (simp add: side_sorted_map_erase side_sorted_map_modify)
  have "level_ok pool side q l'" if f: "map_find q ?m = Some l'" for q l'
  proof (cases "q = p")
    case True
    with f have ne: "remove1 a (orders l) \<noteq> []" and l': "l' = remove_order pool a l"
      using map_find_cancel [OF s l, of q "remove1 a (orders l) = []"]
      by (auto split: if_splits)
    from ok l have "level_ok pool side p l" by (simp add: side_ok_def)
    with a ne True l' show ?thesis by (simp add: level_ok_remove)
  next
    case False
    with f have "map_find q m = Some l'"
      using map_find_cancel [OF s l, of q "remove1 a (orders l) = []"] by simp
    with ok show ?thesis by (simp add: side_ok_def)
  qed
  with s' show ?thesis by (simp add: side_ok_def)
qed

lemma cancel_order_inv:
  assumes inv: "book_inv b"
  shows "book_inv (snd (cancel_order oid b))"
proof (cases "order_lookup b oid")
  case None
  with inv show ?thesis by (simp add: cancel_order_absent)
next
  case (Some loc)
  let ?b = "snd (cancel_order oid b)"
  let ?a = "loc_it loc" and ?p = "loc_price loc" and ?s = "loc_is_buy loc"
  from inv Some have "loc_ok b oid loc" by (simp add: book_inv_def)
  then obtain l where l: "map_find ?p (side_of ?s b) = Some l" and a: "?a \<in> set (orders l)"
    by (auto simp: loc_ok_def)
  note fields = cancel_order_present [OF Some l]
  have sides: "side_ok (order_pool ?b) d (side_of d ?b)" for d
  proof -
    from inv have ok: "side_ok (order_pool b) d (side_of d b)" by (simp add: book_inv_sides)
    show ?thesis
    proof (cases "d = ?s")
      case True
      with side_ok_cancel [OF _ l a, of "order_pool b"] ok show ?thesis
        by (simp add: fields)
    next
      case False
      with ok show ?thesis by (simp add: fields)
    qed
  qed
  from inv have fin: "finite (dom (order_lookup ?b))" by (simp add: fields book_inv_def)
  have locs: "loc_ok ?b oid' loc'" if lk: "order_lookup ?b oid' = Some loc'" for oid' loc'
  proof -
    from lk have ne: "oid' \<noteq> oid" and old: "order_lookup b oid' = Some loc'"
      by (auto simp: fields split: if_splits)
    from inv old have "loc_ok b oid' loc'" by (simp add: book_inv_def)
    then obtain l' where l': "map_find (loc_price loc') (side_of (loc_is_buy loc') b) = Some l'"
      and a': "loc_it loc' \<in> set (orders l')" by (auto simp: loc_ok_def)
    from loc_it_bound(4) [OF inv old] loc_it_bound(4) [OF inv Some] ne
    have ane: "loc_it loc' \<noteq> ?a" by auto
    from inv have srt: "side_sorted ?s (side_of ?s b)" by (simp add: book_inv_sides side_ok_def)
    have "\<exists>l''. map_find (loc_price loc') (side_of (loc_is_buy loc') ?b) = Some l'' \<and>
                loc_it loc' \<in> set (orders l'')"
    proof (cases "loc_is_buy loc' = ?s \<and> loc_price loc' = ?p")
      case True
      with l l' have ll: "l' = l" by simp
      with a' ane have in': "loc_it loc' \<in> set (remove1 ?a (orders l))" by simp
      then have "remove1 ?a (orders l) \<noteq> []" by auto
      with True in' show ?thesis
        using map_find_cancel [OF srt l, of ?p "remove1 ?a (orders l) = []"]
        by (simp add: fields remove_order_def)
    next
      case False
      with l' a' show ?thesis
        using map_find_cancel [OF srt l, of "loc_price loc'" "remove1 ?a (orders l) = []"]
        by (auto simp: fields)
    qed
    with loc_it_bound(4) [OF inv old] show ?thesis by (simp add: loc_ok_def fields)
  qed
  from sides fin locs show ?thesis by (simp add: book_inv_sides)
qed

lemma amend_in_place_fields:
  "order_pool (amend_in_place loc nq b) =
     (order_pool b)[loc_it loc := (order_pool b ! loc_it loc)\<lparr>quantity := nq\<rparr>]"
  "order_lookup (amend_in_place loc nq b) = order_lookup b"
  "side_of d (amend_in_place loc nq b) =
     (if d = loc_is_buy loc then
        map_modify (loc_price loc)
          (update_quantity ((order_pool b)[loc_it loc := (order_pool b ! loc_it loc)\<lparr>quantity := nq\<rparr>])
             (loc_it loc) (quantity (order_pool b ! loc_it loc)))
          (map_subscript d (loc_price loc) (side_of d b))
      else side_of d b)"
  by (cases "loc_is_buy loc"; cases d; simp add: amend_in_place_def side_of_def Let_def)+

lemma nth_set_quantity:
  "price (pool[a := (pool ! a)\<lparr>quantity := nq\<rparr>] ! i) = price (pool ! i)"
  "is_buy (pool[a := (pool ! a)\<lparr>quantity := nq\<rparr>] ! i) = is_buy (pool ! i)"
  "order_id (pool[a := (pool ! a)\<lparr>quantity := nq\<rparr>] ! i) = order_id (pool ! i)"
  "timestamp_ns (pool[a := (pool ! a)\<lparr>quantity := nq\<rparr>] ! i) = timestamp_ns (pool ! i)"
proof -
  have "pool[a := (pool ! a)\<lparr>quantity := nq\<rparr>] ! i =
        (if i = a \<and> a < length pool then (pool ! a)\<lparr>quantity := nq\<rparr> else pool ! i)"
    by (cases "a < length pool") (auto simp: nth_list_update list_update_beyond)
  then show
    "price (pool[a := (pool ! a)\<lparr>quantity := nq\<rparr>] ! i) = price (pool ! i)"
    "is_buy (pool[a := (pool ! a)\<lparr>quantity := nq\<rparr>] ! i) = is_buy (pool ! i)"
    "order_id (pool[a := (pool ! a)\<lparr>quantity := nq\<rparr>] ! i) = order_id (pool ! i)"
    "timestamp_ns (pool[a := (pool ! a)\<lparr>quantity := nq\<rparr>] ! i) = timestamp_ns (pool ! i)"
    by auto
qed

lemma sum_quantity_update:
  assumes "distinct xs" and "a \<in> set xs" and "a < length pool"
  shows "sum_list (map (\<lambda>i. quantity (pool[a := (pool ! a)\<lparr>quantity := nq\<rparr>] ! i)) xs) =
         sum_list (map (\<lambda>i. quantity (pool ! i)) xs) - quantity (pool ! a) + nq"
  using assms
proof (induction xs)
  case Nil
  then show ?case by simp
next
  case (Cons x xs)
  let ?pool = "pool[a := (pool ! a)\<lparr>quantity := nq\<rparr>]"
  show ?case
  proof (cases "x = a")
    case True
    with Cons.prems have nin: "a \<notin> set xs" by simp
    have "?pool ! i = pool ! i" if "i \<in> set xs" for i
    proof -
      from that nin have "a \<noteq> i" by auto
      then show ?thesis by simp
    qed
    then have "sum_list (map (\<lambda>i. quantity (?pool ! i)) xs) = sum_list (map (\<lambda>i. quantity (pool ! i)) xs)"
      by (rule sum_quantity_cong)
    with True Cons.prems show ?thesis by simp
  next
    case False
    with Cons.prems have "distinct xs" "a \<in> set xs" by auto
    from Cons.IH [OF this Cons.prems(3)] False show ?thesis by simp
  qed
qed

lemma level_ok_update_quantity:
  assumes ok: "level_ok pool side p l" and a: "a \<in> set (orders l)"
  shows "level_ok (pool[a := (pool ! a)\<lparr>quantity := nq\<rparr>]) side p
           (update_quantity (pool[a := (pool ! a)\<lparr>quantity := nq\<rparr>]) a (quantity (pool ! a)) l)"
proof -
  let ?pool = "pool[a := (pool ! a)\<lparr>quantity := nq\<rparr>]"
  from ok have d: "distinct (orders l)" and ne: "orders l \<noteq> []"
    and tot: "total_quantity l = sum_list (map (\<lambda>a. quantity (pool ! a)) (orders l))"
    and rec: "\<forall>a \<in> set (orders l). a < length pool \<and> price (pool ! a) = p \<and> is_buy (pool ! a) = side"
    by (simp_all add: level_ok_def)
  from rec a have lt: "a < length pool" by simp
  have rec': "\<forall>i \<in> set (orders l). i < length ?pool \<and> price (?pool ! i) = p \<and> is_buy (?pool ! i) = side"
    using rec by (simp add: nth_set_quantity)
  have "sum_list (map (\<lambda>i. quantity (?pool ! i)) (orders l)) =
        total_quantity l - quantity (pool ! a) + nq"
    using sum_quantity_update [OF d a lt] tot by simp
  moreover from lt have "quantity (?pool ! a) = nq" by simp
  ultimately show ?thesis using d ne rec' by (simp add: level_ok_def update_quantity_def)
qed

lemma level_ok_update_other:
  assumes ok: "level_ok pool side p l" and a: "a \<notin> set (orders l)"
  shows "level_ok (pool[a := r]) side p l"
proof -
  have "pool[a := r] ! i = pool ! i" if "i \<in> set (orders l)" for i
  proof -
    from that a have "a \<noteq> i" by auto
    then show ?thesis by simp
  qed
  then show ?thesis using level_ok_pool_eq [OF ok, of "pool[a := r]"] by simp
qed

lemma amend_in_place_inv:
  assumes inv: "book_inv b" and lk: "order_lookup b oid = Some loc"
  shows "book_inv (amend_in_place loc nq b)"
proof -
  let ?b = "amend_in_place loc nq b"
  let ?a = "loc_it loc" and ?p = "loc_price loc" and ?s = "loc_is_buy loc"
  let ?pool = "(order_pool b)[?a := (order_pool b ! ?a)\<lparr>quantity := nq\<rparr>]"
  let ?f = "update_quantity ?pool ?a (quantity (order_pool b ! ?a))"
  note fields = amend_in_place_fields
  from inv lk have "loc_ok b oid loc" by (simp add: book_inv_def)
  then obtain l where l: "map_find ?p (side_of ?s b) = Some l" and a: "?a \<in> set (orders l)"
    by (auto simp: loc_ok_def)
  from inv have srt: "side_sorted ?s (side_of ?s b)" by (simp add: book_inv_sides side_ok_def)
  from l have sub: "map_subscript ?s ?p (side_of ?s b) = side_of ?s b"
    using map_subscript_present [OF srt] by (simp add: map_find_def)
  have find: "map_find q (side_of d ?b) =
      (if d = ?s \<and> q = ?p then Some (?f l) else map_find q (side_of d b))" for d q
    using l by (auto simp: fields sub map_find_def map_of_map_modify)
  have rec: "price (order_pool b ! ?a) = ?p" "is_buy (order_pool b ! ?a) = ?s"
    using loc_it_bound [OF inv lk] by simp_all
  have sides: "side_ok (order_pool ?b) d (side_of d ?b)" for d
  proof -
    from inv have ok: "side_ok (order_pool b) d (side_of d b)" by (simp add: book_inv_sides)
    then have s': "side_sorted d (side_of d ?b)"
      by (cases "d = ?s") (simp_all add: fields sub side_sorted_map_modify side_ok_def)
    have "level_ok ?pool d q l'" if f: "map_find q (side_of d ?b) = Some l'" for q l'
    proof (cases "d = ?s \<and> q = ?p")
      case True
      with f find have l': "l' = ?f l" by simp
      from ok l True have "level_ok (order_pool b) d q l" by (simp add: side_ok_def)
      with a True l' show ?thesis by (simp add: level_ok_update_quantity)
    next
      case False
      with f find have old: "map_find q (side_of d b) = Some l'" by simp
      with ok have lo: "level_ok (order_pool b) d q l'" by (simp add: side_ok_def)
      have "?a \<notin> set (orders l')"
      proof
        assume "?a \<in> set (orders l')"
        with lo have "price (order_pool b ! ?a) = q \<and> is_buy (order_pool b ! ?a) = d"
          by (simp add: level_ok_def)
        with rec False show False by simp
      qed
      with lo show ?thesis by (rule level_ok_update_other)
    qed
    with s' show ?thesis by (simp add: side_ok_def fields(1))
  qed
  from inv have fin: "finite (dom (order_lookup ?b))" by (simp add: fields book_inv_def)
  have locs: "loc_ok ?b oid' loc'" if lk': "order_lookup ?b oid' = Some loc'" for oid' loc'
  proof -
    from lk' have old: "order_lookup b oid' = Some loc'" by (simp add: fields)
    with inv have "loc_ok b oid' loc'" by (simp add: book_inv_def)
    then obtain l' where l': "map_find (loc_price loc') (side_of (loc_is_buy loc') b) = Some l'"
      and a': "loc_it loc' \<in> set (orders l')" by (auto simp: loc_ok_def)
    have "\<exists>l''. map_find (loc_price loc') (side_of (loc_is_buy loc') ?b) = Some l'' \<and>
                loc_it loc' \<in> set (orders l'')"
    proof (cases "loc_is_buy loc' = ?s \<and> loc_price loc' = ?p")
      case True
      with l l' have "l' = l" by simp
      with True a' show ?thesis by (simp add: find update_quantity_def)
    next
      case False
      with l' a' show ?thesis by (auto simp: find)
    qed
    moreover have "order_id (?pool ! loc_it loc') = oid'"
      using loc_it_bound(4) [OF inv old] by (simp add: nth_set_quantity)
    ultimately show ?thesis by (simp add: loc_ok_def fields(1))
  qed
  from sides fin locs show ?thesis by (simp add: book_inv_sides)
qed

lemma amend_order_absent: "order_lookup b oid = None \<Longrightarrow> amend_order oid np nq b = (False, b)"
  by (simp add: amend_order_def)

lemma amend_order_inv:
  assumes inv: "book_inv b"
  shows "book_inv (snd (amend_order oid np nq b))"
proof (cases "order_lookup b oid")
  case None
  with inv show ?thesis by (simp add: amend_order_absent)
next
  case (Some loc)
  show ?thesis
  proof (cases "price (order_pool b ! loc_it loc) \<noteq> np")
    case True
    with Some show ?thesis
      using add_order_inv [OF cancel_order_inv [OF inv]]
      by (simp add: amend_order_def Let_def)
  next
    case False
    from amend_in_place_inv [OF inv Some] have i1: "book_inv (amend_in_place loc nq b)" .
    with False Some show ?thesis
      using cancel_order_inv [OF i1, of oid] by (cases "nq = 0") (simp_all add: amend_order_def Let_def)
  qed
qed

lemma empty_book_inv: "book_inv empty_book"
  by (simp add: book_inv_def empty_book_def side_ok_def side_sorted_def map_find_def)

lemma reachable_inv: "reachable b \<Longrightarrow> book_inv b"
  by (induction rule: reachable.induct)
     (simp_all add: empty_book_inv add_order_inv cancel_order_inv amend_order_inv)

section \<open>Evaluation on the test book\<close>

lemmas book_eval =
  add_order_def cancel_order_def amend_order_def amend_in_place_def allocate_def empty_book_def
  level_add_order_def remove_order_def update_quantity_def default_level_def
  key_comp_def map_find_def Let_def

lemma test_book_eval:
  "test_book =
     \<lparr>bids = [(100, \<lparr>orders = [0, 1, 2], total_quantity = 60\<rparr>)], asks = [],
      order_lookup = [1 \<mapsto> \<lparr>loc_price = 100, loc_it = 0, loc_is_buy = True\<rparr>,
                      2 \<mapsto> \<lparr>loc_price = 100, loc_it = 1, loc_is_buy = True\<rparr>,
                      3 \<mapsto> \<lparr>loc_price = 100, loc_it = 2, loc_is_buy = True\<rparr>],
      order_pool = [test_order1, test_order2, test_order3]\<rparr>"
  by (simp add: test_book_def test_order1_def test_order2_def test_order3_def book_eval
      eval_nat_numeral)

lemma reachable_test_book: "reachable test_book"
  unfolding test_book_def by (intro reachable.intros)

section \<open>Aggregate quantities\<close>

lemma side_entry_iff:
  "side_sorted d m \<Longrightarrow> (p, l) \<in> set m \<longleftrightarrow> map_find p m = Some l"
  by (simp add: map_find_def side_sorted_distinct)

lemma unat_sum_list:
  "unat (sum_list (ws :: u64 list)) = sum_list (map unat ws) mod 2 ^ 64"
proof (induction ws)
  case Nil
  then show ?case by simp
next
  case (Cons w ws)
  have "unat (w + sum_list ws) = (unat w + unat (sum_list ws)) mod 2 ^ 64"
    by (simp add: unat_word_ariths)
  also have "\<dots> = (unat w + sum_list (map unat ws) mod 2 ^ 64) mod 2 ^ 64"
    by (simp add: Cons.IH)
  also have "\<dots> = (unat w + sum_list (map unat ws)) mod 2 ^ 64"
    by (simp add: mod_add_right_eq)
  finally show ?case by simp
qed

lemma level_entry_ok:
  assumes "book_inv b" and "(p, l) \<in> set (side_of d b)"
  shows "level_ok (order_pool b) d p l"
proof -
  from assms(1) have ok: "side_ok (order_pool b) d (side_of d b)" by (simp add: book_inv_sides)
  then have "side_sorted d (side_of d b)" by (simp add: side_ok_def)
  with assms(2) have "map_find p (side_of d b) = Some l" by (simp add: side_entry_iff)
  with ok show ?thesis by (simp add: side_ok_def)
qed

text \<open>
  Claim C1, as amended. In every state reachable from the empty book by \<open>add_order\<close>,
  \<open>cancel_order\<close> and \<open>amend_order\<close>, every level present in \<open>bids\<close> or \<open>asks\<close> has a
  \<open>total_quantity\<close> equal to the sum of the quantities of the orders in its sequence taken
  modulo \<open>2^64\<close>, which is the sum in the \<open>uint64_t\<close> arithmetic of the code; whenever the
  true sum is below \<open>2^64\<close>, the stored total is that true sum.
\<close>

theorem total_quantity_is_sum:
  assumes "reachable b" and "(p, l) \<in> set (bids b) \<union> set (asks b)"
  shows "total_quantity l = level_sum (order_pool b) l \<and>
         unat (total_quantity l) = level_sum_nat (order_pool b) l mod 2 ^ 64 \<and>
         (level_sum_nat (order_pool b) l < 2 ^ 64 \<longrightarrow>
            unat (total_quantity l) = level_sum_nat (order_pool b) l)"
proof -
  from assms(1) have inv: "book_inv b" by (rule reachable_inv)
  from assms(2) have "(p, l) \<in> set (side_of True b) \<or> (p, l) \<in> set (side_of False b)"
    by (simp add: side_of_def)
  then obtain d where "(p, l) \<in> set (side_of d b)" by blast
  with inv have "level_ok (order_pool b) d p l" by (rule level_entry_ok)
  then have eq: "total_quantity l = level_sum (order_pool b) l"
    by (simp add: level_ok_def level_sum_def)
  have "unat (level_sum (order_pool b) l) = level_sum_nat (order_pool b) l mod 2 ^ 64"
    by (simp add: level_sum_def level_sum_nat_def unat_sum_list comp_def)
  with eq show ?thesis by simp
qed

theorem total_quantity_is_sum_witness:
  "reachable test_book \<and>
   (100, \<lparr>orders = [0, 1, 2], total_quantity = 60\<rparr>) \<in> set (bids test_book) \<union> set (asks test_book) \<and>
   total_quantity \<lparr>orders = [0, 1, 2], total_quantity = 60\<rparr> =
     level_sum (order_pool test_book) \<lparr>orders = [0, 1, 2], total_quantity = 60\<rparr> \<and>
   unat (total_quantity \<lparr>orders = [0, 1, 2], total_quantity = (60 :: u64)\<rparr>) =
     level_sum_nat (order_pool test_book) \<lparr>orders = [0, 1, 2], total_quantity = 60\<rparr> mod 2 ^ 64 \<and>
   level_sum_nat (order_pool test_book) \<lparr>orders = [0, 1, 2], total_quantity = 60\<rparr> < 2 ^ 64 \<and>
   unat (total_quantity \<lparr>orders = [0, 1, 2], total_quantity = (60 :: u64)\<rparr>) =
     level_sum_nat (order_pool test_book) \<lparr>orders = [0, 1, 2], total_quantity = 60\<rparr>"
proof -
  have m: "(100, \<lparr>orders = [0, 1, 2], total_quantity = 60\<rparr>) \<in> set (bids test_book) \<union> set (asks test_book)"
    by (simp add: test_book_eval)
  have n: "level_sum_nat (order_pool test_book) \<lparr>orders = [0, 1, 2], total_quantity = 60\<rparr> < 2 ^ 64"
    by (simp add: test_book_eval level_sum_nat_def test_order1_def test_order2_def test_order3_def)
  from total_quantity_is_sum [OF reachable_test_book m] reachable_test_book m n
  show ?thesis by (elim conjE, simp)
qed

lemma overflow_book_eval:
  "bids overflow_book = [(100, \<lparr>orders = [0, 1], total_quantity = 1\<rparr>)]"
  "order_pool overflow_book =
     [\<lparr>order_id = 1, is_buy = True, price = 100, quantity = 18446744073709551615,
       timestamp_ns = 1000\<rparr>,
      \<lparr>order_id = 2, is_buy = True, price = 100, quantity = 2, timestamp_ns = 2000\<rparr>]"
  by (simp_all add: overflow_book_def book_eval)

text \<open>
  The claim as worded, with the true sum of the quantities, fails once that sum passes
  \<open>2^64\<close>: after adding buy orders of quantity \<open>2^64 - 1\<close> and \<open>2\<close> at price 100 the level's
  stored total is 1 while its two orders hold \<open>2^64 + 1\<close> units.
\<close>

theorem total_quantity_true_sum_counterexample:
  "reachable overflow_book \<and>
   (100, \<lparr>orders = [0, 1], total_quantity = 1\<rparr>) \<in> set (bids overflow_book) \<union> set (asks overflow_book) \<and>
   unat (total_quantity \<lparr>orders = [0, 1], total_quantity = (1 :: u64)\<rparr>) = 1 \<and>
   level_sum_nat (order_pool overflow_book) \<lparr>orders = [0, 1], total_quantity = 1\<rparr> =
     18446744073709551617 \<and>
   unat (total_quantity \<lparr>orders = [0, 1], total_quantity = (1 :: u64)\<rparr>) \<noteq>
     level_sum_nat (order_pool overflow_book) \<lparr>orders = [0, 1], total_quantity = 1\<rparr>"
proof -
  have r: "reachable overflow_book" unfolding overflow_book_def by (intro reachable.intros)
  have m: "(100, \<lparr>orders = [0, 1], total_quantity = 1\<rparr>) \<in>
      set (bids overflow_book) \<union> set (asks overflow_book)"
    by (simp add: overflow_book_eval)
  have s: "level_sum_nat (order_pool overflow_book) \<lparr>orders = [0, 1], total_quantity = 1\<rparr> =
      18446744073709551617"
    by (simp add: level_sum_nat_def overflow_book_eval)
  from r m s show ?thesis by simp
qed

section \<open>Snapshots\<close>

lemma ordering_book_sides:
  "bids ordering_book =
     [(102, \<lparr>orders = [1], total_quantity = 20\<rparr>), (101, \<lparr>orders = [2], total_quantity = 30\<rparr>),
      (100, \<lparr>orders = [0], total_quantity = 10\<rparr>)]"
  "asks ordering_book =
     [(103, \<lparr>orders = [3], total_quantity = 40\<rparr>), (104, \<lparr>orders = [5], total_quantity = 60\<rparr>),
      (105, \<lparr>orders = [4], total_quantity = 50\<rparr>)]"
  by (simp_all add: ordering_book_def book_eval eval_nat_numeral)

lemma snapshot_loop_take:
  "snapshot_loop depth count m out = out @ take (depth - count) (map level_view m)"
proof (induction m arbitrary: count out)
  case Nil
  then show ?case by simp
next
  case (Cons e m)
  obtain p level where e: "e = (p, level)" by (cases e)
  show ?case
  proof (cases "count \<ge> depth")
    case True
    with e show ?thesis by simp
  next
    case False
    then obtain k where k: "depth - count = Suc k" by (cases "depth - count") auto
    then have "depth - Suc count = k" by simp
    with False e k Cons.IH [of "Suc count"] show ?thesis by (simp add: level_view_def)
  qed
qed

lemma sorted_level_view:
  "sorted_wrt (\<lambda>x y. key_comp d (pl_price x) (pl_price y)) (map level_view m) = side_sorted d m"
  by (simp add: side_sorted_def sorted_wrt_map level_view_def)

lemma get_snapshot_within_max_size:
  assumes "d \<le> max_size" and "side_sorted True (bids b)" and "side_sorted False (asks b)"
  shows "get_snapshot max_size d b =
           (Inr (take d (map level_view (bids b)), take d (map level_view (asks b))), b)"
    and "length (take d (map level_view (bids b))) = min d (get_bid_levels b)"
    and "length (take d (map level_view (asks b))) = min d (get_ask_levels b)"
    and "sorted_wrt (\<lambda>x y. pl_price x > pl_price y) (take d (map level_view (bids b)))"
    and "sorted_wrt (\<lambda>x y. pl_price x < pl_price y) (take d (map level_view (asks b)))"
proof -
  from assms(1) show "get_snapshot max_size d b =
      (Inr (take d (map level_view (bids b)), take d (map level_view (asks b))), b)"
    by (simp add: get_snapshot_def reserve_def snapshot_loop_take)
  show "length (take d (map level_view (bids b))) = min d (get_bid_levels b)"
    by (simp add: get_bid_levels_def min.commute)
  show "length (take d (map level_view (asks b))) = min d (get_ask_levels b)"
    by (simp add: get_ask_levels_def min.commute)
  from assms(2) have "sorted_wrt (\<lambda>x y. pl_price x > pl_price y) (map level_view (bids b))"
    using sorted_level_view [of True "bids b"] by (simp add: key_comp_def)
  then show "sorted_wrt (\<lambda>x y. pl_price x > pl_price y) (take d (map level_view (bids b)))"
    by (rule sorted_wrt_take)
  from assms(3) have "sorted_wrt (\<lambda>x y. pl_price x < pl_price y) (map level_view (asks b))"
    using sorted_level_view [of False "asks b"] by (simp add: key_comp_def)
  then show "sorted_wrt (\<lambda>x y. pl_price x < pl_price y) (take d (map level_view (asks b)))"
    by (rule sorted_wrt_take)
qed

lemma get_snapshot_ordering_book:
  "get_snapshot 1000 2 ordering_book =
     (Inr ([\<lparr>pl_price = 102, pl_total_quantity = 20\<rparr>, \<lparr>pl_price = 101, pl_total_quantity = 30\<rparr>],
           [\<lparr>pl_price = 103, pl_total_quantity = 40\<rparr>, \<lparr>pl_price = 104, pl_total_quantity = 60\<rparr>]),
      ordering_book)"
  by (simp add: get_snapshot_def reserve_def snapshot_loop_take ordering_book_sides level_view_def
      eval_nat_numeral)

text \<open>
  Claim C6. For a depth within \<open>max_size()\<close> the claim holds (lemma
  \<open>get_snapshot_within_max_size\<close>): \<open>get_snapshot\<close> returns the first \<open>d\<close> levels of each side
  in iteration order, each as the pair of the level's price and \<open>total_quantity\<close>, that is
  \<open>min d (bids.size())\<close> bid entries with strictly descending prices and \<open>min d (asks.size())\<close>
  ask entries with strictly ascending prices, and the book is unchanged. It does not hold for
  every depth: \<open>get_snapshot\<close> reserves \<open>depth\<close> elements before it reads a level, so for a
  depth above \<open>max_size()\<close> it throws \<open>std::length_error\<close> and returns no entries, however few
  levels the book has. \<open>SIZE_MAX\<close> is such a depth on every implementation: on the test book,
  which has one bid level, the claim promises one bid entry and the call throws.
\<close>

theorem get_snapshot_length_error:
  assumes "max_size < depth"
  shows "get_snapshot max_size depth b = (Inl Length_error, b)"
  using assms by (simp add: get_snapshot_def reserve_def)

theorem get_snapshot_length_error_witness:
  "(2 ^ 64 - 1) div 16 < (2 ^ 64 - 1 :: nat) \<and>
   get_snapshot ((2 ^ 64 - 1) div 16) (2 ^ 64 - 1) test_book = (Inl Length_error, test_book) \<and>
   min (2 ^ 64 - 1) (get_bid_levels test_book) = 1"
proof -
  have lt: "(2 ^ 64 - 1) div 16 < (2 ^ 64 - 1 :: nat)" by simp
  have n: "min (2 ^ 64 - 1) (get_bid_levels test_book) = 1"
    by (simp add: get_bid_levels_def test_book_eval)
  from get_snapshot_length_error [OF lt] lt n show ?thesis by simp
qed

section \<open>Cancel\<close>

lemma present_level:
  assumes "book_inv b" and "order_lookup b oid = Some loc"
  obtains l where "map_find (loc_price loc) (side_of (loc_is_buy loc) b) = Some l"
    and "loc_it loc \<in> set (orders l)"
    and "level_ok (order_pool b) (loc_is_buy loc) (loc_price loc) l"
proof -
  from assms have "loc_ok b oid loc" by (simp add: book_inv_def)
  then obtain l where l: "map_find (loc_price loc) (side_of (loc_is_buy loc) b) = Some l"
    and a: "loc_it loc \<in> set (orders l)" by (auto simp: loc_ok_def)
  from assms(1) have "side_ok (order_pool b) (loc_is_buy loc) (side_of (loc_is_buy loc) b)"
    by (simp add: book_inv_sides)
  with l have "level_ok (order_pool b) (loc_is_buy loc) (loc_price loc) l"
    by (simp add: side_ok_def)
  with l a that show thesis by blast
qed

lemma remove1_empty_iff: "a \<in> set xs \<Longrightarrow> remove1 a xs = [] \<longleftrightarrow> xs = [a]"
  by (cases xs) (auto split: if_splits)

text \<open>
  Claim C2. In every book state, \<open>cancel_order\<close> of an identity that has no location returns
  \<open>false\<close> and the book is unchanged. In a state satisfying the invariants, \<open>cancel_order\<close>
  of an identity that has a location returns \<open>true\<close>; the location entry is erased and no
  other entry changes; the pool and the other side are unchanged; on the order's side every
  level at another price is unchanged; the order's level loses exactly the handle of that
  order (the remaining orders keep their sequence) and its quantity, and is erased from the
  side map if that was its only order. The resulting state satisfies the invariants again.
\<close>

theorem cancel_order_spec:
  "(order_lookup b oid = None \<longrightarrow> cancel_order oid b = (False, b)) \<and>
   (book_inv b \<longrightarrow>
     (\<forall>loc. order_lookup b oid = Some loc \<longrightarrow>
        fst (cancel_order oid b) = True \<and>
        order_lookup (snd (cancel_order oid b)) = (order_lookup b)(oid := None) \<and>
        order_pool (snd (cancel_order oid b)) = order_pool b \<and>
        side_of (\<not> loc_is_buy loc) (snd (cancel_order oid b)) = side_of (\<not> loc_is_buy loc) b \<and>
        (\<forall>q. q \<noteq> loc_price loc \<longrightarrow>
           map_find q (side_of (loc_is_buy loc) (snd (cancel_order oid b))) =
           map_find q (side_of (loc_is_buy loc) b)) \<and>
        (\<exists>l. map_find (loc_price loc) (side_of (loc_is_buy loc) b) = Some l \<and>
             loc_it loc \<in> set (orders l) \<and>
             map_find (loc_price loc) (side_of (loc_is_buy loc) (snd (cancel_order oid b))) =
               (if orders l = [loc_it loc] then None
                else Some \<lparr>orders = remove1 (loc_it loc) (orders l),
                           total_quantity =
                             total_quantity l - quantity (order_pool b ! loc_it loc)\<rparr>)) \<and>
        book_inv (snd (cancel_order oid b))))"
proof (intro conjI impI allI)
  assume "order_lookup b oid = None"
  then show "cancel_order oid b = (False, b)" by (rule cancel_order_absent)
next
  fix loc
  assume inv: "book_inv b" and lk: "order_lookup b oid = Some loc"
  from inv lk obtain l where l: "map_find (loc_price loc) (side_of (loc_is_buy loc) b) = Some l"
    and a: "loc_it loc \<in> set (orders l)" by (rule present_level)
  note fields = cancel_order_present [OF lk l]
  from inv have srt: "side_sorted (loc_is_buy loc) (side_of (loc_is_buy loc) b)"
    by (simp add: book_inv_sides side_ok_def)
  note find = map_find_cancel [OF srt l, of _ "remove1 (loc_it loc) (orders l) = []"
      "remove_order (order_pool b) (loc_it loc) l"]
  show "fst (cancel_order oid b) = True" by (rule fields(1))
  show "order_lookup (snd (cancel_order oid b)) = (order_lookup b)(oid := None)" by (rule fields(3))
  show "order_pool (snd (cancel_order oid b)) = order_pool b" by (rule fields(2))
  show "side_of (\<not> loc_is_buy loc) (snd (cancel_order oid b)) = side_of (\<not> loc_is_buy loc) b"
    by (simp add: fields(4))
  show "book_inv (snd (cancel_order oid b))" using inv by (rule cancel_order_inv)
  show "\<exists>l. map_find (loc_price loc) (side_of (loc_is_buy loc) b) = Some l \<and>
             loc_it loc \<in> set (orders l) \<and>
             map_find (loc_price loc) (side_of (loc_is_buy loc) (snd (cancel_order oid b))) =
               (if orders l = [loc_it loc] then None
                else Some \<lparr>orders = remove1 (loc_it loc) (orders l),
                           total_quantity =
                             total_quantity l - quantity (order_pool b ! loc_it loc)\<rparr>)"
  proof (intro exI conjI)
    show "map_find (loc_price loc) (side_of (loc_is_buy loc) b) = Some l" by (rule l)
    show "loc_it loc \<in> set (orders l)" by (rule a)
    show "map_find (loc_price loc) (side_of (loc_is_buy loc) (snd (cancel_order oid b))) =
               (if orders l = [loc_it loc] then None
                else Some \<lparr>orders = remove1 (loc_it loc) (orders l),
                           total_quantity =
                             total_quantity l - quantity (order_pool b ! loc_it loc)\<rparr>)"
      using find [of "loc_price loc"] remove1_empty_iff [OF a]
      by (simp add: fields(4) remove_order_def)
  qed
next
  fix loc q
  assume inv: "book_inv b" and lk: "order_lookup b oid = Some loc" and q: "q \<noteq> loc_price loc"
  from inv lk obtain l where l: "map_find (loc_price loc) (side_of (loc_is_buy loc) b) = Some l"
    and a: "loc_it loc \<in> set (orders l)" by (rule present_level)
  from inv have srt: "side_sorted (loc_is_buy loc) (side_of (loc_is_buy loc) b)"
    by (simp add: book_inv_sides side_ok_def)
  from q show "map_find q (side_of (loc_is_buy loc) (snd (cancel_order oid b))) =
           map_find q (side_of (loc_is_buy loc) b)"
    using map_find_cancel [OF srt l, of q "remove1 (loc_it loc) (orders l) = []"]
    by (simp add: cancel_order_present(4) [OF lk l])
qed

theorem cancel_order_spec_witness:
  "order_lookup test_book 999 = None \<and>
   cancel_order 999 test_book = (False, test_book) \<and>
   book_inv test_book \<and>
   order_lookup test_book 1 = Some \<lparr>loc_price = 100, loc_it = 0, loc_is_buy = True\<rparr> \<and>
   fst (cancel_order 1 test_book) = True \<and>
   order_lookup (snd (cancel_order 1 test_book)) = (order_lookup test_book)(1 := None) \<and>
   order_pool (snd (cancel_order 1 test_book)) = order_pool test_book \<and>
   asks (snd (cancel_order 1 test_book)) = asks test_book \<and>
   map_find 100 (bids (snd (cancel_order 1 test_book))) =
     Some \<lparr>orders = [1, 2], total_quantity = 50\<rparr>"
proof -
  let ?loc = "\<lparr>loc_price = 100, loc_it = 0, loc_is_buy = True\<rparr>"
  have none: "order_lookup test_book 999 = None" by (simp add: test_book_eval)
  have inv: "book_inv test_book" using reachable_test_book by (rule reachable_inv)
  have lk: "order_lookup test_book 1 = Some ?loc" by (simp add: test_book_eval)
  from cancel_order_spec [of test_book 999] none
  have c1: "cancel_order 999 test_book = (False, test_book)" by blast
  from cancel_order_spec [of test_book 1] inv lk
  have c2: "fst (cancel_order 1 test_book) = True \<and>
        order_lookup (snd (cancel_order 1 test_book)) = (order_lookup test_book)(1 := None) \<and>
        order_pool (snd (cancel_order 1 test_book)) = order_pool test_book \<and>
        side_of (\<not> loc_is_buy ?loc) (snd (cancel_order 1 test_book)) =
          side_of (\<not> loc_is_buy ?loc) test_book \<and>
        (\<exists>l. map_find (loc_price ?loc) (side_of (loc_is_buy ?loc) test_book) = Some l \<and>
             loc_it ?loc \<in> set (orders l) \<and>
             map_find (loc_price ?loc) (side_of (loc_is_buy ?loc) (snd (cancel_order 1 test_book))) =
               (if orders l = [loc_it ?loc] then None
                else Some \<lparr>orders = remove1 (loc_it ?loc) (orders l),
                           total_quantity =
                             total_quantity l - quantity (order_pool test_book ! loc_it ?loc)\<rparr>))"
    by blast
  then obtain l where l: "map_find 100 (bids test_book) = Some l"
    and r: "map_find 100 (bids (snd (cancel_order 1 test_book))) =
              (if orders l = [0] then None
               else Some \<lparr>orders = remove1 0 (orders l),
                          total_quantity = total_quantity l - quantity (order_pool test_book ! 0)\<rparr>)"
    by (auto simp: side_of_def)
  from l have "l = \<lparr>orders = [0, 1, 2], total_quantity = 60\<rparr>"
    by (simp add: test_book_eval map_find_def)
  with r have lvl: "map_find 100 (bids (snd (cancel_order 1 test_book))) =
     Some \<lparr>orders = [1, 2], total_quantity = 50\<rparr>"
    by (simp add: test_book_eval test_order1_def)
  from c2 have "asks (snd (cancel_order 1 test_book)) = asks test_book"
    by (simp add: side_of_def)
  with none c1 inv lk c2 lvl show ?thesis by blast
qed

section \<open>Amend\<close>

lemma amend_order_price_change:
  assumes "order_lookup b oid = Some loc" and "price (order_pool b ! loc_it loc) \<noteq> np"
  shows "amend_order oid np nq b =
           (True, add_order \<lparr>order_id = oid, is_buy = is_buy (order_pool b ! loc_it loc),
                             price = np, quantity = nq,
                             timestamp_ns = timestamp_ns (order_pool b ! loc_it loc)\<rparr>
                    (snd (cancel_order oid b)))"
  using assms by (simp add: amend_order_def Let_def)

lemma amend_order_same_price:
  assumes "order_lookup b oid = Some loc" and "price (order_pool b ! loc_it loc) = np"
  shows "amend_order oid np nq b =
           (if nq = 0 then cancel_order oid (amend_in_place loc nq b)
            else (True, amend_in_place loc nq b))"
  using assms by (simp add: amend_order_def Let_def)

lemma cancel_order_true:
  assumes "book_inv b" and "order_lookup b oid = Some loc"
  shows "fst (cancel_order oid b) = True"
proof -
  from assms obtain l where "map_find (loc_price loc) (side_of (loc_is_buy loc) b) = Some l"
    by (rule present_level)
  with assms(2) show ?thesis by (rule cancel_order_present(1))
qed

text \<open>
  Claim C7. In a state satisfying the invariants, \<open>amend_order\<close> returns \<open>true\<close> exactly when
  the identity has a location at the time of the call; whenever it returns \<open>false\<close> the book
  is unchanged.
\<close>

theorem amend_order_result:
  assumes "book_inv b"
  shows "(fst (amend_order oid np nq b) \<longleftrightarrow> order_lookup b oid \<noteq> None) \<and>
         (\<not> fst (amend_order oid np nq b) \<longrightarrow> snd (amend_order oid np nq b) = b)"
proof (cases "order_lookup b oid")
  case None
  then show ?thesis by (simp add: amend_order_absent)
next
  case (Some loc)
  have "fst (amend_order oid np nq b)"
  proof (cases "price (order_pool b ! loc_it loc) = np")
    case False
    with Some show ?thesis by (simp add: amend_order_price_change)
  next
    case True
    have "book_inv (amend_in_place loc nq b)" using assms Some by (rule amend_in_place_inv)
    moreover have "order_lookup (amend_in_place loc nq b) oid = Some loc"
      using Some by (simp add: amend_in_place_fields)
    ultimately have "fst (cancel_order oid (amend_in_place loc nq b)) = True"
      by (rule cancel_order_true)
    with True Some show ?thesis by (cases "nq = 0") (simp_all add: amend_order_same_price)
  qed
  with Some show ?thesis by simp
qed

theorem amend_order_result_witness:
  "book_inv test_book \<and>
   (fst (amend_order 2 100 0 test_book) \<longleftrightarrow> order_lookup test_book 2 \<noteq> None) \<and>
   order_lookup test_book 2 \<noteq> None \<and>
   (fst (amend_order 999 100 10 test_book) \<longleftrightarrow> order_lookup test_book 999 \<noteq> None) \<and>
   \<not> fst (amend_order 999 100 10 test_book) \<and>
   snd (amend_order 999 100 10 test_book) = test_book"
proof -
  have inv: "book_inv test_book" using reachable_test_book by (rule reachable_inv)
  have p: "order_lookup test_book 2 \<noteq> None" and a: "order_lookup test_book 999 = None"
    by (simp_all add: test_book_eval)
  from amend_order_result [OF inv, of 999 100 10] a
  have f: "\<not> fst (amend_order 999 100 10 test_book)" by simp
  with amend_order_result [OF inv, of 999 100 10]
  have s: "snd (amend_order 999 100 10 test_book) = test_book" by blast
  from amend_order_result [OF inv, of 2 100 0] amend_order_result [OF inv, of 999 100 10]
    inv p f s show ?thesis by blast
qed

lemma orders_at_add_order:
  assumes "side_sorted d (side_of d b)"
  shows "orders_at q (side_of d (add_order x b)) =
           (if d = is_buy x \<and> q = price x then orders_at q (side_of d b) @ [length (order_pool b)]
            else orders_at q (side_of d b))"
  using assms
  by (auto simp: orders_at_def side_of_add_order map_find_add level_add_order_def
      default_level_def split: option.splits)

lemma orders_at_cancel_other:
  assumes "book_inv b" and "order_lookup b oid = Some loc" and "q \<noteq> loc_price loc \<or> d \<noteq> loc_is_buy loc"
  shows "orders_at q (side_of d (snd (cancel_order oid b))) = orders_at q (side_of d b)"
proof -
  from assms(1,2) obtain l where l: "map_find (loc_price loc) (side_of (loc_is_buy loc) b) = Some l"
    by (rule present_level)
  from assms(1) have srt: "side_sorted (loc_is_buy loc) (side_of (loc_is_buy loc) b)"
    by (simp add: book_inv_sides side_ok_def)
  show ?thesis
  proof (cases "d = loc_is_buy loc")
    case True
    with assms(3) have "q \<noteq> loc_price loc" by simp
    with True show ?thesis
      using map_find_cancel [OF srt l, of q "remove1 (loc_it loc) (orders l) = []"]
      by (simp add: orders_at_def cancel_order_present(4) [OF assms(2) l])
  next
    case False
    then show ?thesis by (simp add: cancel_order_present(4) [OF assms(2) l])
  qed
qed

text \<open>
  Claim C3. In a state satisfying the invariants where the identity has a location and the
  order's price differs from the new price, \<open>amend_order\<close> returns \<open>true\<close> and its final state
  is that of \<open>cancel_order\<close> (which succeeds) followed by \<open>add_order\<close> of an order with the
  same identity, the order's side and timestamp, the new price and the new quantity. In that
  state the new record is the one the location of the identity refers to, and its handle is
  the last element of the sequence at the new price: the sequence that was there before,
  with the new handle appended.
\<close>

theorem amend_price_change_spec:
  assumes "book_inv b" and "order_lookup b oid = Some loc"
    and "price (order_pool b ! loc_it loc) \<noteq> np"
  shows "amend_order oid np nq b =
           (True, add_order \<lparr>order_id = oid, is_buy = is_buy (order_pool b ! loc_it loc),
                             price = np, quantity = nq,
                             timestamp_ns = timestamp_ns (order_pool b ! loc_it loc)\<rparr>
                    (snd (cancel_order oid b))) \<and>
         fst (cancel_order oid b) = True \<and>
         order_pool (snd (amend_order oid np nq b)) ! length (order_pool b) =
           \<lparr>order_id = oid, is_buy = loc_is_buy loc, price = np, quantity = nq,
            timestamp_ns = timestamp_ns (order_pool b ! loc_it loc)\<rparr> \<and>
         order_lookup (snd (amend_order oid np nq b)) oid =
           Some \<lparr>loc_price = np, loc_it = length (order_pool b), loc_is_buy = loc_is_buy loc\<rparr> \<and>
         orders_at np (side_of (loc_is_buy loc) (snd (amend_order oid np nq b))) =
           orders_at np (side_of (loc_is_buy loc) b) @ [length (order_pool b)] \<and>
         last (orders_at np (side_of (loc_is_buy loc) (snd (amend_order oid np nq b)))) =
           length (order_pool b)"
proof -
  let ?c = "snd (cancel_order oid b)"
  let ?x = "\<lparr>order_id = oid, is_buy = is_buy (order_pool b ! loc_it loc),
             price = np, quantity = nq,
             timestamp_ns = timestamp_ns (order_pool b ! loc_it loc)\<rparr>"
  have eq: "amend_order oid np nq b = (True, add_order ?x ?c)"
    using assms(2,3) by (rule amend_order_price_change)
  have side: "is_buy (order_pool b ! loc_it loc) = loc_is_buy loc"
    and pr: "price (order_pool b ! loc_it loc) = loc_price loc"
    using loc_it_bound [OF assms(1,2)] by simp_all
  have ct: "fst (cancel_order oid b) = True" using assms(1,2) by (rule cancel_order_true)
  from assms(1,2) obtain l where l: "map_find (loc_price loc) (side_of (loc_is_buy loc) b) = Some l"
    by (rule present_level)
  have pool: "order_pool ?c = order_pool b" using assms(2) l by (rule cancel_order_present(2))
  have cinv: "book_inv ?c" using assms(1) by (rule cancel_order_inv)
  then have srt: "side_sorted (loc_is_buy loc) (side_of (loc_is_buy loc) ?c)"
    by (simp add: book_inv_sides side_ok_def)
  have old: "orders_at np (side_of (loc_is_buy loc) ?c) = orders_at np (side_of (loc_is_buy loc) b)"
    using assms(1,2) assms(3) pr by (intro orders_at_cancel_other) auto
  have seq: "orders_at np (side_of (loc_is_buy loc) (add_order ?x ?c)) =
      orders_at np (side_of (loc_is_buy loc) b) @ [length (order_pool b)]"
    using orders_at_add_order [OF srt, of np ?x] by (simp add: side pool old)
  have rec: "order_pool (add_order ?x ?c) ! length (order_pool b) = ?x"
    by (simp add: order_pool_add_order pool)
  have lk: "order_lookup (add_order ?x ?c) oid =
      Some \<lparr>loc_price = np, loc_it = length (order_pool b), loc_is_buy = loc_is_buy loc\<rparr>"
    by (simp add: order_lookup_add_order pool side)
  from eq ct rec lk seq show ?thesis by (simp add: side)
qed

lemma reachable_ordering_book: "reachable ordering_book"
  unfolding ordering_book_def by (intro reachable.intros)

lemma ordering_book_order1:
  "order_lookup ordering_book 1 = Some \<lparr>loc_price = 100, loc_it = 0, loc_is_buy = True\<rparr>"
  "order_pool ordering_book ! 0 =
     \<lparr>order_id = 1, is_buy = True, price = 100, quantity = 10, timestamp_ns = 1000\<rparr>"
  "length (order_pool ordering_book) = 6"
  by (simp_all add: ordering_book_def book_eval)

theorem amend_price_change_spec_witness:
  "book_inv ordering_book \<and>
   order_lookup ordering_book 1 = Some \<lparr>loc_price = 100, loc_it = 0, loc_is_buy = True\<rparr> \<and>
   price (order_pool ordering_book ! 0) \<noteq> 101 \<and>
   amend_order 1 101 7 ordering_book =
     (True, add_order \<lparr>order_id = 1, is_buy = True, price = 101, quantity = 7,
                       timestamp_ns = 1000\<rparr>
              (snd (cancel_order 1 ordering_book))) \<and>
   fst (cancel_order 1 ordering_book) = True \<and>
   order_pool (snd (amend_order 1 101 7 ordering_book)) ! 6 =
     \<lparr>order_id = 1, is_buy = True, price = 101, quantity = 7, timestamp_ns = 1000\<rparr> \<and>
   order_lookup (snd (amend_order 1 101 7 ordering_book)) 1 =
     Some \<lparr>loc_price = 101, loc_it = 6, loc_is_buy = True\<rparr> \<and>
   orders_at 101 (bids (snd (amend_order 1 101 7 ordering_book))) = [2, 6] \<and>
   last (orders_at 101 (bids (snd (amend_order 1 101 7 ordering_book)))) = 6"
proof -
  let ?loc = "\<lparr>loc_price = 100, loc_it = 0, loc_is_buy = True\<rparr>"
  have inv: "book_inv ordering_book" using reachable_ordering_book by (rule reachable_inv)
  have lk: "order_lookup ordering_book 1 = Some ?loc" by (rule ordering_book_order1)
  have ne: "price (order_pool ordering_book ! loc_it ?loc) \<noteq> 101"
    by (simp add: ordering_book_order1)
  have before: "orders_at 101 (bids ordering_book) = [2]"
    by (simp add: orders_at_def map_find_def ordering_book_sides)
  from amend_price_change_spec [OF inv lk ne, of 7] before inv lk ne
  show ?thesis by (elim conjE, simp add: ordering_book_order1 side_of_def)
qed

text \<open>
  Claim C10. In a state satisfying the invariants where the identity has a location and the
  order's price differs from the new price, the order that \<open>amend_order\<close> leaves under the
  identity is on the side the order was on before: the side flag of the new location and of
  the new record are those of the old ones, the new handle is in the sequence at the new
  price on that side, and the map of the other side is unchanged.
\<close>

theorem amend_price_change_keeps_side:
  assumes "book_inv b" and "order_lookup b oid = Some loc"
    and "price (order_pool b ! loc_it loc) \<noteq> np"
  shows "\<exists>loc'. order_lookup (snd (amend_order oid np nq b)) oid = Some loc' \<and>
           loc_is_buy loc' = loc_is_buy loc \<and>
           is_buy (order_pool (snd (amend_order oid np nq b)) ! loc_it loc') =
             is_buy (order_pool b ! loc_it loc) \<and>
           loc_it loc' \<in> set (orders_at np (side_of (loc_is_buy loc) (snd (amend_order oid np nq b)))) \<and>
           side_of (\<not> loc_is_buy loc) (snd (amend_order oid np nq b)) =
             side_of (\<not> loc_is_buy loc) b"
proof -
  let ?c = "snd (cancel_order oid b)"
  let ?x = "\<lparr>order_id = oid, is_buy = is_buy (order_pool b ! loc_it loc),
             price = np, quantity = nq,
             timestamp_ns = timestamp_ns (order_pool b ! loc_it loc)\<rparr>"
  let ?loc' = "\<lparr>loc_price = np, loc_it = length (order_pool b), loc_is_buy = loc_is_buy loc\<rparr>"
  have eq: "snd (amend_order oid np nq b) = add_order ?x ?c"
    using assms(2,3) by (simp add: amend_order_price_change)
  have side: "is_buy (order_pool b ! loc_it loc) = loc_is_buy loc"
    using loc_it_bound [OF assms(1,2)] by simp
  from assms(1,2) obtain l where l: "map_find (loc_price loc) (side_of (loc_is_buy loc) b) = Some l"
    by (rule present_level)
  note cfields = cancel_order_present [OF assms(2) l]
  have cinv: "book_inv ?c" using assms(1) by (rule cancel_order_inv)
  then have srt: "side_sorted (loc_is_buy loc) (side_of (loc_is_buy loc) ?c)"
    by (simp add: book_inv_sides side_ok_def)
  have 1: "order_lookup (add_order ?x ?c) oid = Some ?loc'"
    by (simp add: order_lookup_add_order cfields(2) side)
  have 2: "is_buy (order_pool (add_order ?x ?c) ! loc_it ?loc') = is_buy (order_pool b ! loc_it loc)"
    by (simp add: order_pool_add_order cfields(2))
  have 3: "loc_it ?loc' \<in> set (orders_at np (side_of (loc_is_buy loc) (add_order ?x ?c)))"
    using orders_at_add_order [OF srt, of np ?x] by (simp add: side cfields(2))
  have 4: "side_of (\<not> loc_is_buy loc) (add_order ?x ?c) = side_of (\<not> loc_is_buy loc) b"
    by (simp add: side_of_add_order side cfields(4))
  from 1 2 3 4 show ?thesis unfolding eq by (intro exI [of _ ?loc']) simp
qed

theorem amend_price_change_keeps_side_witness:
  "book_inv ordering_book \<and>
   order_lookup ordering_book 1 = Some \<lparr>loc_price = 100, loc_it = 0, loc_is_buy = True\<rparr> \<and>
   price (order_pool ordering_book ! 0) \<noteq> 101 \<and>
   (\<exists>loc'. order_lookup (snd (amend_order 1 101 7 ordering_book)) 1 = Some loc' \<and>
      loc_is_buy loc' = True \<and>
      is_buy (order_pool (snd (amend_order 1 101 7 ordering_book)) ! loc_it loc') =
        is_buy (order_pool ordering_book ! 0) \<and>
      loc_it loc' \<in> set (orders_at 101 (bids (snd (amend_order 1 101 7 ordering_book)))) \<and>
      asks (snd (amend_order 1 101 7 ordering_book)) = asks ordering_book)"
proof -
  let ?loc = "\<lparr>loc_price = 100, loc_it = 0, loc_is_buy = True\<rparr>"
  have inv: "book_inv ordering_book" using reachable_ordering_book by (rule reachable_inv)
  have lk: "order_lookup ordering_book 1 = Some ?loc" by (rule ordering_book_order1)
  have ne: "price (order_pool ordering_book ! loc_it ?loc) \<noteq> 101"
    by (simp add: ordering_book_order1)
  from amend_price_change_keeps_side [OF inv lk ne, of 7] inv lk ne
  show ?thesis by (simp add: side_of_def)
qed

section \<open>Quantity-only amend\<close>


lemma amend_in_place_present:
  assumes inv: "book_inv b" and lk: "order_lookup b oid = Some loc"
  shows "side_of d (amend_in_place loc nq b) =
           (if d = loc_is_buy loc then
              map_modify (loc_price loc)
                (\<lambda>l. l\<lparr>total_quantity :=
                        total_quantity l - quantity (order_pool b ! loc_it loc) + nq\<rparr>)
                (side_of d b)
            else side_of d b)"
proof -
  from inv lk obtain l where l: "map_find (loc_price loc) (side_of (loc_is_buy loc) b) = Some l"
    by (rule present_level)
  from inv have srt: "side_sorted (loc_is_buy loc) (side_of (loc_is_buy loc) b)"
    by (simp add: book_inv_sides side_ok_def)
  from l have sub: "map_subscript (loc_is_buy loc) (loc_price loc) (side_of (loc_is_buy loc) b) =
      side_of (loc_is_buy loc) b"
    using map_subscript_present [OF srt] by (simp add: map_find_def)
  from loc_it_bound(1) [OF inv lk]
  have q: "quantity ((order_pool b)[loc_it loc := (order_pool b ! loc_it loc)\<lparr>quantity := nq\<rparr>] ! loc_it loc) = nq"
    by simp
  then have f: "update_quantity
        ((order_pool b)[loc_it loc := (order_pool b ! loc_it loc)\<lparr>quantity := nq\<rparr>])
        (loc_it loc) (quantity (order_pool b ! loc_it loc)) =
      (\<lambda>l. l\<lparr>total_quantity := total_quantity l - quantity (order_pool b ! loc_it loc) + nq\<rparr>)"
    by (intro ext) (simp add: update_quantity_def)
  show ?thesis
    by (cases "d = loc_is_buy loc") (simp_all add: amend_in_place_fields sub f)
qed



section \<open>Amend to zero\<close>

lemma live_orders_iff:
  "a \<in> live_orders b \<longleftrightarrow> (\<exists>d p l. (p, l) \<in> set (side_of d b) \<and> a \<in> set (orders l))"
proof -
  have "(\<exists>d p l. (p, l) \<in> set (side_of d b) \<and> a \<in> set (orders l)) \<longleftrightarrow>
        (\<exists>p l. (p, l) \<in> set (side_of True b) \<and> a \<in> set (orders l)) \<or>
        (\<exists>p l. (p, l) \<in> set (side_of False b) \<and> a \<in> set (orders l))"
    by (metis (full_types))
  also have "\<dots> \<longleftrightarrow> a \<in> live_orders b"
    by (force simp: live_orders_def side_of_def)
  finally show ?thesis by simp
qed

lemma live_orders_find:
  assumes "book_inv b"
  shows "a \<in> live_orders b \<longleftrightarrow>
           (\<exists>d p l. map_find p (side_of d b) = Some l \<and> a \<in> set (orders l))"
proof -
  have "side_sorted d (side_of d b)" for d
    using assms by (simp add: book_inv_sides side_ok_def)
  then have "(p, l) \<in> set (side_of d b) \<longleftrightarrow> map_find p (side_of d b) = Some l" for d p l
    by (rule side_entry_iff)
  then show ?thesis by (simp add: live_orders_iff)
qed

lemma cancelled_not_live:
  assumes inv: "book_inv b" and lk: "order_lookup b oid = Some loc"
  shows "loc_it loc \<notin> live_orders (snd (cancel_order oid b))"
proof
  let ?c = "snd (cancel_order oid b)"
  assume "loc_it loc \<in> live_orders ?c"
  moreover have cinv: "book_inv ?c" using inv by (rule cancel_order_inv)
  ultimately obtain d p l' where l': "map_find p (side_of d ?c) = Some l'"
    and a: "loc_it loc \<in> set (orders l')" by (auto simp: live_orders_find)
  from inv lk obtain l where l: "map_find (loc_price loc) (side_of (loc_is_buy loc) b) = Some l"
    and lok: "level_ok (order_pool b) (loc_is_buy loc) (loc_price loc) l" by (rule present_level)
  note fields = cancel_order_present [OF lk l]
  from cinv l' have "level_ok (order_pool ?c) d p l'" by (simp add: book_inv_sides side_ok_def)
  with a have "price (order_pool b ! loc_it loc) = p" "is_buy (order_pool b ! loc_it loc) = d"
    by (simp_all add: level_ok_def fields(2))
  with loc_it_bound(2,3) [OF inv lk] have p: "p = loc_price loc" and d: "d = loc_is_buy loc"
    by simp_all
  from inv have srt: "side_sorted (loc_is_buy loc) (side_of (loc_is_buy loc) b)"
    by (simp add: book_inv_sides side_ok_def)
  from l' p d have "l' = remove_order (order_pool b) (loc_it loc) l"
    using map_find_cancel [OF srt l, of p "remove1 (loc_it loc) (orders l) = []"]
    by (simp add: fields(4) split: if_splits)
  with a have "loc_it loc \<in> set (remove1 (loc_it loc) (orders l))" by (simp add: remove_order_def)
  moreover from lok have "distinct (orders l)" by (simp add: level_ok_def)
  ultimately show False by simp
qed

lemma amend_zero_fields:
  assumes inv: "book_inv b" and lk: "order_lookup b oid = Some loc"
  shows "fst (cancel_order oid (amend_in_place loc 0 b)) = fst (cancel_order oid b)"
    and "bids (snd (cancel_order oid (amend_in_place loc 0 b))) = bids (snd (cancel_order oid b))"
    and "asks (snd (cancel_order oid (amend_in_place loc 0 b))) = asks (snd (cancel_order oid b))"
    and "order_lookup (snd (cancel_order oid (amend_in_place loc 0 b))) =
         order_lookup (snd (cancel_order oid b))"
    and "order_pool (snd (cancel_order oid (amend_in_place loc 0 b))) =
         (order_pool (snd (cancel_order oid b)))
           [loc_it loc := (order_pool b ! loc_it loc)\<lparr>quantity := 0\<rparr>]"
proof -
  let ?b1 = "amend_in_place loc 0 b"
  let ?a = "loc_it loc" and ?p = "loc_price loc" and ?s = "loc_is_buy loc"
  let ?u = "\<lambda>l. l\<lparr>total_quantity := total_quantity l - quantity (order_pool b ! ?a)\<rparr>"
  from inv lk obtain l where l: "map_find ?p (side_of ?s b) = Some l"
    by (rule present_level)
  have lk1: "order_lookup ?b1 oid = Some loc" using lk by (simp add: amend_in_place_fields)
  note s1 = amend_in_place_present [OF inv lk, of _ 0]
  have l1: "map_find ?p (side_of ?s ?b1) = Some (?u l)"
    using l by (simp add: s1 map_find_def map_of_map_modify)
  note c = cancel_order_present [OF lk l]
  note c1 = cancel_order_present [OF lk1 l1]
  have q0: "quantity (order_pool ?b1 ! ?a) = 0"
    using loc_it_bound(1) [OF inv lk] by (simp add: amend_in_place_fields)
  have lev: "remove_order (order_pool ?b1) ?a (?u l) = remove_order (order_pool b) ?a l"
    by (simp add: remove_order_def q0)
  have side: "side_of d (snd (cancel_order oid ?b1)) = side_of d (snd (cancel_order oid b))" for d
    by (cases "d = ?s")
       (simp_all add: c(4) c1(4) lev s1 map_erase_map_modify map_modify_map_modify)
  show "fst (cancel_order oid ?b1) = fst (cancel_order oid b)" by (simp add: c(1) c1(1))
  from side [of True] show "bids (snd (cancel_order oid ?b1)) = bids (snd (cancel_order oid b))"
    by (simp add: side_of_def)
  from side [of False] show "asks (snd (cancel_order oid ?b1)) = asks (snd (cancel_order oid b))"
    by (simp add: side_of_def)
  show "order_lookup (snd (cancel_order oid ?b1)) = order_lookup (snd (cancel_order oid b))"
    by (simp add: c(3) c1(3) amend_in_place_fields)
  show "order_pool (snd (cancel_order oid ?b1)) =
      (order_pool (snd (cancel_order oid b)))[?a := (order_pool b ! ?a)\<lparr>quantity := 0\<rparr>]"
    by (simp add: c(2) c1(2) amend_in_place_fields)
qed

lemma same_book_sides: "same_book b1 b2 \<Longrightarrow> side_of d b1 = side_of d b2"
  by (simp add: same_book_def side_of_def)

lemma same_book_live: "same_book b1 b2 \<Longrightarrow> live_orders b1 = live_orders b2"
  by (simp add: same_book_def live_orders_def)

lemma same_book_intro:
  assumes "\<And>d. side_of d b1 = side_of d b2" and "order_lookup b1 = order_lookup b2"
    and "length (order_pool b1) = length (order_pool b2)"
    and "\<And>a. a \<in> live_orders b1 \<Longrightarrow> order_pool b1 ! a = order_pool b2 ! a"
  shows "same_book b1 b2"
  using assms(1) [of True] assms(1) [of False] assms(2-4)
  by (simp add: same_book_def side_of_def)

lemma level_live:
  assumes "book_inv b" and "map_find p (side_of d b) = Some l" and "a \<in> set (orders l)"
  shows "a \<in> live_orders b"
  using assms by (auto simp: live_orders_find)

lemma loc_it_live:
  assumes "book_inv b" and "order_lookup b oid = Some loc"
  shows "loc_it loc \<in> live_orders b"
proof -
  from assms obtain l where "map_find (loc_price loc) (side_of (loc_is_buy loc) b) = Some l"
    and "loc_it loc \<in> set (orders l)" by (rule present_level)
  with assms(1) show ?thesis by (rule level_live)
qed

lemma live_bound:
  assumes "book_inv b" and "a \<in> live_orders b"
  shows "a < length (order_pool b)"
proof -
  from assms obtain d p l where l: "map_find p (side_of d b) = Some l" and a: "a \<in> set (orders l)"
    by (auto simp: live_orders_find)
  from assms(1) l have "level_ok (order_pool b) d p l" by (simp add: book_inv_sides side_ok_def)
  with a show ?thesis by (simp add: level_ok_def)
qed

lemma same_book_inv:
  assumes sb: "same_book b1 b2" and inv: "book_inv b1"
  shows "book_inv b2"
proof -
  have sides: "side_ok (order_pool b2) d (side_of d b2)" for d
  proof -
    from inv have ok: "side_ok (order_pool b1) d (side_of d b1)" by (simp add: book_inv_sides)
    have "level_ok (order_pool b2) d p l" if f: "map_find p (side_of d b2) = Some l" for p l
    proof -
      from f have f1: "map_find p (side_of d b1) = Some l" by (simp add: same_book_sides [OF sb])
      with ok have lo: "level_ok (order_pool b1) d p l" by (simp add: side_ok_def)
      have "order_pool b2 ! a = order_pool b1 ! a" if "a \<in> set (orders l)" for a
        using level_live [OF inv f1 that] sb by (simp add: same_book_def)
      with lo show ?thesis using sb by (intro level_ok_pool_eq [OF lo]) (simp_all add: same_book_def)
    qed
    with ok show ?thesis by (simp add: side_ok_def same_book_sides [OF sb])
  qed
  have "loc_ok b2 oid loc" if lk: "order_lookup b2 oid = Some loc" for oid loc
  proof -
    from lk sb have lk1: "order_lookup b1 oid = Some loc" by (simp add: same_book_def)
    with inv have "loc_ok b1 oid loc" by (simp add: book_inv_def)
    moreover from loc_it_live [OF inv lk1] sb
    have "order_pool b1 ! loc_it loc = order_pool b2 ! loc_it loc" by (simp add: same_book_def)
    ultimately show ?thesis by (simp add: loc_ok_def same_book_sides [OF sb])
  qed
  moreover from sb inv have "finite (dom (order_lookup b2))" by (simp add: same_book_def book_inv_def)
  ultimately show ?thesis using sides by (simp add: book_inv_sides)
qed

lemma live_orders_add_order:
  assumes "book_inv b" and "a \<in> live_orders (add_order x b)"
  shows "a \<in> live_orders b \<or> a = length (order_pool b)"
proof -
  from assms(1) have inv': "book_inv (add_order x b)" by (rule add_order_inv)
  with assms(2) obtain d p l where l: "map_find p (side_of d (add_order x b)) = Some l"
    and a: "a \<in> set (orders l)" by (auto simp: live_orders_find)
  from assms(1) have srt: "side_sorted d (side_of d b)" by (simp add: book_inv_sides side_ok_def)
  show ?thesis
  proof (cases "d = is_buy x \<and> p = price x")
    case True
    with l srt have "l = level_add_order (order_pool b @ [x]) (length (order_pool b))
        (case map_find p (side_of d b) of None \<Rightarrow> default_level | Some l \<Rightarrow> l)"
      by (simp add: side_of_add_order map_find_add)
    with a have "a = length (order_pool b) \<or>
        (\<exists>l0. map_find p (side_of d b) = Some l0 \<and> a \<in> set (orders l0))"
      by (auto simp: level_add_order_def default_level_def split: option.splits)
    with assms(1) show ?thesis by (auto simp: live_orders_find)
  next
    case False
    with l srt have "map_find p (side_of d b) = Some l"
      by (auto simp: side_of_add_order map_find_add split: if_splits)
    with a assms(1) show ?thesis by (auto simp: live_orders_find)
  qed
qed

lemma same_book_add:
  assumes sb: "same_book b1 b2" and inv: "book_inv b1"
  shows "same_book (add_order x b1) (add_order x b2)"
proof (rule same_book_intro)
  from sb have len: "length (order_pool b1) = length (order_pool b2)" by (simp add: same_book_def)
  have g: "level_add_order (pool @ [x]) (length pool) =
      (\<lambda>l. l\<lparr>orders := orders l @ [length pool],
               total_quantity := total_quantity l + quantity x\<rparr>)" for pool
    by (intro ext) (simp add: level_add_order_def)
  have "level_add_order (order_pool b1 @ [x]) (length (order_pool b1)) =
      (\<lambda>l. l\<lparr>orders := orders l @ [length (order_pool b2)],
               total_quantity := total_quantity l + quantity x\<rparr>)"
    unfolding g by (simp only: len)
  then have f: "level_add_order (order_pool b1 @ [x]) (length (order_pool b1)) =
           level_add_order (order_pool b2 @ [x]) (length (order_pool b2))"
    by (simp only: g)
  show "side_of d (add_order x b1) = side_of d (add_order x b2)" for d
    by (simp add: side_of_add_order f same_book_sides [OF sb])
  show "order_lookup (add_order x b1) = order_lookup (add_order x b2)"
    using sb by (simp add: order_lookup_add_order same_book_def)
  show "length (order_pool (add_order x b1)) = length (order_pool (add_order x b2))"
    by (simp add: order_pool_add_order len)
  show "order_pool (add_order x b1) ! a = order_pool (add_order x b2) ! a"
    if "a \<in> live_orders (add_order x b1)" for a
  proof -
    from live_orders_add_order [OF inv that]
    consider "a \<in> live_orders b1" | "a = length (order_pool b1)" by blast
    then show ?thesis
    proof cases
      case 1
      with sb have "order_pool b1 ! a = order_pool b2 ! a" by (simp add: same_book_def)
      moreover from live_bound [OF inv 1] have "a < length (order_pool b1)" .
      ultimately show ?thesis by (simp add: order_pool_add_order nth_append len [symmetric])
    next
      case 2
      then have "order_pool (add_order x b1) ! a = x" by (simp add: order_pool_add_order)
      moreover from 2 len have "order_pool (add_order x b2) ! a = x"
        by (simp add: order_pool_add_order)
      ultimately show ?thesis by simp
    qed
  qed
qed

lemma live_orders_cancel_order:
  assumes inv: "book_inv b" and "a \<in> live_orders (snd (cancel_order oid b))"
  shows "a \<in> live_orders b"
proof (cases "order_lookup b oid")
  case None
  with assms(2) show ?thesis by (simp add: cancel_order_absent)
next
  case (Some loc)
  let ?c = "snd (cancel_order oid b)"
  from inv have "book_inv ?c" by (rule cancel_order_inv)
  with assms(2) obtain d p l' where l': "map_find p (side_of d ?c) = Some l'"
    and a: "a \<in> set (orders l')" by (auto simp: live_orders_find)
  from inv Some obtain l where l: "map_find (loc_price loc) (side_of (loc_is_buy loc) b) = Some l"
    by (rule present_level)
  from inv have srt: "side_sorted (loc_is_buy loc) (side_of (loc_is_buy loc) b)"
    by (simp add: book_inv_sides side_ok_def)
  note fields = cancel_order_present [OF Some l]
  show ?thesis
  proof (cases "d = loc_is_buy loc \<and> p = loc_price loc")
    case True
    with l' have "l' = remove_order (order_pool b) (loc_it loc) l"
      using map_find_cancel [OF srt l, of p "remove1 (loc_it loc) (orders l) = []"]
      by (simp add: fields(4) split: if_splits)
    with a have "a \<in> set (orders l)"
      using set_remove1_subset [of "loc_it loc" "orders l"] by (auto simp: remove_order_def)
    with inv l show ?thesis by (rule level_live)
  next
    case False
    with l' have "map_find p (side_of d b) = Some l'"
      using map_find_cancel [OF srt l, of p "remove1 (loc_it loc) (orders l) = []"]
      by (auto simp: fields(4) split: if_splits)
    with inv show ?thesis using a by (rule level_live)
  qed
qed

lemma same_book_cancel:
  assumes sb: "same_book b1 b2" and inv: "book_inv b1"
  shows "fst (cancel_order oid b1) = fst (cancel_order oid b2) \<and>
         same_book (snd (cancel_order oid b1)) (snd (cancel_order oid b2))"
proof (cases "order_lookup b1 oid")
  case None
  moreover from None sb have "order_lookup b2 oid = None" by (simp add: same_book_def)
  ultimately show ?thesis using sb by (simp add: cancel_order_absent)
next
  case (Some loc)
  from Some sb have lk2: "order_lookup b2 oid = Some loc" by (simp add: same_book_def)
  from inv Some obtain l where l: "map_find (loc_price loc) (side_of (loc_is_buy loc) b1) = Some l"
    by (rule present_level)
  then have l2: "map_find (loc_price loc) (side_of (loc_is_buy loc) b2) = Some l"
    by (simp add: same_book_sides [OF sb])
  note c1 = cancel_order_present [OF Some l]
  note c2 = cancel_order_present [OF lk2 l2]
  from loc_it_live [OF inv Some] sb
  have rec: "order_pool b1 ! loc_it loc = order_pool b2 ! loc_it loc" by (simp add: same_book_def)
  have "same_book (snd (cancel_order oid b1)) (snd (cancel_order oid b2))"
  proof (rule same_book_intro)
    show "side_of d (snd (cancel_order oid b1)) = side_of d (snd (cancel_order oid b2))" for d
      by (simp add: c1(4) c2(4) same_book_sides [OF sb] remove_order_def rec)
    show "order_lookup (snd (cancel_order oid b1)) = order_lookup (snd (cancel_order oid b2))"
      using sb by (simp add: c1(3) c2(3) same_book_def)
    show "length (order_pool (snd (cancel_order oid b1))) =
          length (order_pool (snd (cancel_order oid b2)))"
      using sb by (simp add: c1(2) c2(2) same_book_def)
    show "order_pool (snd (cancel_order oid b1)) ! a = order_pool (snd (cancel_order oid b2)) ! a"
      if "a \<in> live_orders (snd (cancel_order oid b1))" for a
      using live_orders_cancel_order [OF inv that] sb by (simp add: c1(2) c2(2) same_book_def)
  qed
  then show ?thesis by (simp add: c1(1) c2(1))
qed

lemma set_map_modify:
  "(q, l') \<in> set (map_modify p f m) \<Longrightarrow> \<exists>l. (q, l) \<in> set m \<and> (l' = l \<or> l' = f l)"
proof (induction m)
  case Nil
  then show ?case by simp
next
  case (Cons e m)
  obtain k v where e: "e = (k, v)" by (cases e)
  show ?case
  proof (cases "k = p")
    case True
    with Cons.prems e have "(q, l') = (k, f v) \<or> (q, l') \<in> set m" by simp
    with e show ?thesis by auto
  next
    case False
    with Cons.prems e have "(q, l') = (k, v) \<or> (q, l') \<in> set (map_modify p f m)" by simp
    with Cons.IH e show ?thesis by auto
  qed
qed

lemma live_orders_amend_in_place:
  assumes inv: "book_inv b" and lk: "order_lookup b oid = Some loc"
    and a: "a \<in> live_orders (amend_in_place loc nq b)"
  shows "a \<in> live_orders b"
proof -
  from a obtain d p l' where in': "(p, l') \<in> set (side_of d (amend_in_place loc nq b))"
    and al: "a \<in> set (orders l')" by (auto simp: live_orders_iff)
  have "\<exists>l. (p, l) \<in> set (side_of d b) \<and> orders l' = orders l"
  proof (cases "d = loc_is_buy loc")
    case True
    with in' obtain l where "(p, l) \<in> set (side_of d b)"
      and "l' = l \<or> l' = l\<lparr>total_quantity :=
              total_quantity l - quantity (order_pool b ! loc_it loc) + nq\<rparr>"
      using set_map_modify [of p l' "loc_price loc" _ "side_of d b"]
      by (auto simp: amend_in_place_present [OF inv lk])
    then show ?thesis by auto
  next
    case False
    with in' show ?thesis by (auto simp: amend_in_place_present [OF inv lk])
  qed
  then obtain l where "(p, l) \<in> set (side_of d b)" and "orders l' = orders l" by blast
  with al have "(p, l) \<in> set (side_of d b) \<and> a \<in> set (orders l)" by simp
  then show ?thesis unfolding live_orders_iff by blast
qed

lemma same_book_amend_in_place:
  assumes sb: "same_book b1 b2" and inv: "book_inv b1" and lk: "order_lookup b1 oid = Some loc"
  shows "same_book (amend_in_place loc nq b1) (amend_in_place loc nq b2)"
proof (rule same_book_intro)
  from sb inv have inv2: "book_inv b2" by (rule same_book_inv)
  from lk sb have lk2: "order_lookup b2 oid = Some loc" by (simp add: same_book_def)
  from sb have len: "length (order_pool b1) = length (order_pool b2)" by (simp add: same_book_def)
  from loc_it_live [OF inv lk] sb
  have rec: "order_pool b1 ! loc_it loc = order_pool b2 ! loc_it loc" by (simp add: same_book_def)
  show "side_of d (amend_in_place loc nq b1) = side_of d (amend_in_place loc nq b2)" for d
    by (simp add: amend_in_place_present [OF inv lk] amend_in_place_present [OF inv2 lk2]
        rec same_book_sides [OF sb])
  show "order_lookup (amend_in_place loc nq b1) = order_lookup (amend_in_place loc nq b2)"
    using sb by (simp add: amend_in_place_fields same_book_def)
  show "length (order_pool (amend_in_place loc nq b1)) =
        length (order_pool (amend_in_place loc nq b2))"
    by (simp add: amend_in_place_fields len)
  show "order_pool (amend_in_place loc nq b1) ! a = order_pool (amend_in_place loc nq b2) ! a"
    if "a \<in> live_orders (amend_in_place loc nq b1)" for a
  proof -
    from live_orders_amend_in_place [OF inv lk that] have live: "a \<in> live_orders b1" .
    with sb have eq: "order_pool b1 ! a = order_pool b2 ! a" by (simp add: same_book_def)
    from live_bound [OF inv live] have lt: "a < length (order_pool b1)" .
    with len have lt2: "a < length (order_pool b2)" by simp
    show ?thesis
    proof (cases "a = loc_it loc")
      case True
      with lt lt2 rec show ?thesis by (simp add: amend_in_place_fields)
    next
      case False
      with eq show ?thesis by (simp add: amend_in_place_fields)
    qed
  qed
qed

lemma same_book_amend:
  assumes sb: "same_book b1 b2" and inv: "book_inv b1"
  shows "fst (amend_order oid np nq b1) = fst (amend_order oid np nq b2) \<and>
         same_book (snd (amend_order oid np nq b1)) (snd (amend_order oid np nq b2))"
proof (cases "order_lookup b1 oid")
  case None
  moreover from None sb have "order_lookup b2 oid = None" by (simp add: same_book_def)
  ultimately show ?thesis using sb by (simp add: amend_order_absent)
next
  case (Some loc)
  from Some sb have lk2: "order_lookup b2 oid = Some loc" by (simp add: same_book_def)
  from loc_it_live [OF inv Some] sb
  have rec: "order_pool b2 ! loc_it loc = order_pool b1 ! loc_it loc" by (simp add: same_book_def)
  show ?thesis
  proof (cases "price (order_pool b1 ! loc_it loc) = np")
    case False
    from same_book_cancel [OF sb inv, of oid]
    have "same_book (snd (cancel_order oid b1)) (snd (cancel_order oid b2))" by simp
    moreover have "book_inv (snd (cancel_order oid b1))" using inv by (rule cancel_order_inv)
    ultimately show ?thesis using False Some lk2
      by (simp add: amend_order_price_change rec same_book_add)
  next
    case True
    have s1: "same_book (amend_in_place loc nq b1) (amend_in_place loc nq b2)"
      using sb inv Some by (rule same_book_amend_in_place)
    have i1: "book_inv (amend_in_place loc nq b1)" using inv Some by (rule amend_in_place_inv)
    from same_book_cancel [OF s1 i1, of oid] s1 True Some lk2 show ?thesis
      by (cases "nq = 0") (simp_all add: amend_order_same_price rec)
  qed
qed

lemma op_state_inv: "book_inv b \<Longrightarrow> book_inv (op_state x b)"
  by (cases x) (simp_all add: add_order_inv cancel_order_inv amend_order_inv)

lemma run_inv: "book_inv b \<Longrightarrow> book_inv (run ops b)"
  by (induction ops arbitrary: b) (simp_all add: op_state_inv)

lemma same_book_op:
  assumes "same_book b1 b2" and "book_inv b1"
  shows "op_result x b1 = op_result x b2 \<and> same_book (op_state x b1) (op_state x b2)"
  using assms same_book_cancel [OF assms] same_book_amend [OF assms]
  by (cases x) (simp_all add: same_book_add)

lemma same_book_run:
  assumes "same_book b1 b2" and "book_inv b1"
  shows "results ops b1 = results ops b2 \<and> same_book (run ops b1) (run ops b2)"
  using assms
proof (induction ops arbitrary: b1 b2)
  case Nil
  then show ?case by simp
next
  case (Cons x ops)
  from same_book_op [OF Cons.prems, of x]
  have r: "op_result x b1 = op_result x b2" and s: "same_book (op_state x b1) (op_state x b2)"
    by simp_all
  from Cons.prems(2) have "book_inv (op_state x b1)" by (rule op_state_inv)
  from Cons.IH [OF s this] r show ?case by simp
qed

lemma same_book_observe:
  assumes "same_book b1 b2"
  shows "fst (get_snapshot max_size d b1) = fst (get_snapshot max_size d b2)"
    and "get_total_orders b1 = get_total_orders b2"
    and "get_bid_levels b1 = get_bid_levels b2"
    and "get_ask_levels b1 = get_ask_levels b2"
  using assms
  by (simp_all add: same_book_def get_snapshot_def reserve_def get_total_orders_def get_bid_levels_def
      get_ask_levels_def)

text \<open>
  Claim C9. In a state satisfying the invariants where the identity rests at price \<open>p\<close>,
  \<open>amend_order\<close> with price \<open>p\<close> and quantity zero returns what \<open>cancel_order\<close> returns and
  leaves the same order book: the same side maps, the same location index, and the same
  records behind every handle that a level holds. The two pools differ in one place only, the
  record of the cancelled order, whose quantity \<open>amend_order\<close> has overwritten with zero
  before cancelling; no level refers to that record any more, and after any further sequence
  of calls the two books still return the same results and hold the same order book.
\<close>

theorem amend_zero_is_cancel:
  assumes "book_inv b" and "order_lookup b oid = Some loc"
  shows "fst (amend_order oid (loc_price loc) 0 b) = fst (cancel_order oid b) \<and>
         same_book (snd (amend_order oid (loc_price loc) 0 b)) (snd (cancel_order oid b)) \<and>
         order_pool (snd (amend_order oid (loc_price loc) 0 b)) =
           (order_pool (snd (cancel_order oid b)))
             [loc_it loc := (order_pool b ! loc_it loc)\<lparr>quantity := 0\<rparr>] \<and>
         loc_it loc \<notin> live_orders (snd (cancel_order oid b)) \<and>
         (\<forall>ops. results ops (snd (amend_order oid (loc_price loc) 0 b)) =
                  results ops (snd (cancel_order oid b)) \<and>
                same_book (run ops (snd (amend_order oid (loc_price loc) 0 b)))
                  (run ops (snd (cancel_order oid b))))"
proof -
  let ?am = "snd (amend_order oid (loc_price loc) 0 b)"
  let ?c = "snd (cancel_order oid b)"
  have pr: "price (order_pool b ! loc_it loc) = loc_price loc"
    using loc_it_bound(2) [OF assms] .
  have eq: "amend_order oid (loc_price loc) 0 b = cancel_order oid (amend_in_place loc 0 b)"
    using assms(2) pr by (simp add: amend_order_same_price)
  note z = amend_zero_fields [OF assms]
  have nl: "loc_it loc \<notin> live_orders ?c" using assms by (rule cancelled_not_live)
  have sb: "same_book ?am ?c"
  proof (rule same_book_intro)
    show "side_of d ?am = side_of d ?c" for d
      unfolding eq using z(2,3) by (simp add: side_of_def)
    show "order_lookup ?am = order_lookup ?c" unfolding eq by (rule z(4))
    show "length (order_pool ?am) = length (order_pool ?c)" unfolding eq by (simp add: z(5))
    show "order_pool ?am ! a = order_pool ?c ! a" if "a \<in> live_orders ?am" for a
    proof -
      from that z(2,3) have "a \<in> live_orders ?c" unfolding eq by (simp add: live_orders_def)
      with nl have "a \<noteq> loc_it loc" by auto
      then show ?thesis unfolding eq by (simp add: z(5))
    qed
  qed
  have inv: "book_inv ?am" using assms(1) by (rule amend_order_inv)
  from same_book_run [OF sb inv] sb nl z(1,5) show ?thesis unfolding eq by simp
qed

theorem amend_zero_is_cancel_witness:
  "book_inv test_book \<and>
   order_lookup test_book 1 = Some \<lparr>loc_price = 100, loc_it = 0, loc_is_buy = True\<rparr> \<and>
   fst (amend_order 1 100 0 test_book) = fst (cancel_order 1 test_book) \<and>
   same_book (snd (amend_order 1 100 0 test_book)) (snd (cancel_order 1 test_book)) \<and>
   order_pool (snd (amend_order 1 100 0 test_book)) =
     (order_pool (snd (cancel_order 1 test_book)))
       [0 := (order_pool test_book ! 0)\<lparr>quantity := 0\<rparr>] \<and>
   0 \<notin> live_orders (snd (cancel_order 1 test_book)) \<and>
   results [Cancel 1, Amend 2 100 5] (snd (amend_order 1 100 0 test_book)) =
     results [Cancel 1, Amend 2 100 5] (snd (cancel_order 1 test_book))"
proof -
  let ?loc = "\<lparr>loc_price = 100, loc_it = 0, loc_is_buy = True\<rparr>"
  have inv: "book_inv test_book" using reachable_test_book by (rule reachable_inv)
  have lk: "order_lookup test_book 1 = Some ?loc" by (simp add: test_book_eval)
  from amend_zero_is_cancel [OF inv lk] inv lk
  show ?thesis by (elim conjE, simp)
qed

section \<open>Levels are never empty\<close>








section \<open>Duplicate identities\<close>

lemma live_level:
  assumes "book_inv b" and "a \<in> live_orders b"
  shows "a \<in> set (orders_at (price (order_pool b ! a)) (side_of (is_buy (order_pool b ! a)) b))"
proof -
  from assms obtain d p l where l: "map_find p (side_of d b) = Some l" and a: "a \<in> set (orders l)"
    by (auto simp: live_orders_find)
  from assms(1) l have "level_ok (order_pool b) d p l" by (simp add: book_inv_sides side_ok_def)
  with a have "price (order_pool b ! a) = p" "is_buy (order_pool b ! a) = d"
    by (simp_all add: level_ok_def)
  with l a show ?thesis by (simp add: orders_at_def)
qed

lemma orders_at_live:
  assumes "book_inv b" and "a \<in> set (orders_at p (side_of d b))"
  shows "a \<in> live_orders b"
proof (cases "map_find p (side_of d b)")
  case None
  with assms(2) show ?thesis by (simp add: orders_at_def)
next
  case (Some l)
  with assms(2) have "a \<in> set (orders l)" by (simp add: orders_at_def)
  with assms(1) Some show ?thesis by (rule level_live)
qed

lemma live_orders_add_keep:
  assumes inv: "book_inv b" and a: "a \<in> live_orders b"
  shows "a \<in> live_orders (add_order x b)"
proof -
  from inv a obtain d p l where l: "map_find p (side_of d b) = Some l" and al: "a \<in> set (orders l)"
    by (auto simp: live_orders_find)
  from inv have srt: "side_sorted d (side_of d b)" by (simp add: book_inv_sides side_ok_def)
  from l al have "a \<in> set (orders_at p (side_of d b))" by (simp add: orders_at_def)
  then have "a \<in> set (orders_at p (side_of d (add_order x b)))"
    by (auto simp: orders_at_add_order [OF srt])
  with add_order_inv [OF inv] show ?thesis by (rule orders_at_live)
qed

lemma live_orders_cancel_keep:
  assumes inv: "book_inv b" and a: "a \<in> live_orders b"
    and ne: "\<And>loc. order_lookup b oid = Some loc \<Longrightarrow> loc_it loc \<noteq> a"
  shows "a \<in> live_orders (snd (cancel_order oid b))"
proof (cases "order_lookup b oid")
  case None
  with a show ?thesis by (simp add: cancel_order_absent)
next
  case (Some loc)
  from inv a obtain d p l0 where l0: "map_find p (side_of d b) = Some l0"
    and al: "a \<in> set (orders l0)" by (auto simp: live_orders_find)
  from inv Some obtain l where l: "map_find (loc_price loc) (side_of (loc_is_buy loc) b) = Some l"
    by (rule present_level)
  from inv have srt: "side_sorted (loc_is_buy loc) (side_of (loc_is_buy loc) b)"
    by (simp add: book_inv_sides side_ok_def)
  note fields = cancel_order_present [OF Some l]
  have cinv: "book_inv (snd (cancel_order oid b))" using inv by (rule cancel_order_inv)
  have "\<exists>l'. map_find p (side_of d (snd (cancel_order oid b))) = Some l' \<and> a \<in> set (orders l')"
  proof (cases "d = loc_is_buy loc \<and> p = loc_price loc")
    case True
    with l l0 have "l0 = l" by simp
    with al ne [OF Some] have in': "a \<in> set (remove1 (loc_it loc) (orders l))" by simp
    then have "remove1 (loc_it loc) (orders l) \<noteq> []" by auto
    with True in' show ?thesis
      using map_find_cancel [OF srt l, of p "remove1 (loc_it loc) (orders l) = []"]
      by (simp add: fields(4) remove_order_def)
  next
    case False
    with l0 al show ?thesis
      using map_find_cancel [OF srt l, of p "remove1 (loc_it loc) (orders l) = []"]
      by (auto simp: fields(4))
  qed
  then obtain l' where "map_find p (side_of d (snd (cancel_order oid b))) = Some l'"
    and "a \<in> set (orders l')" by blast
  with cinv show ?thesis by (rule level_live)
qed

lemma live_orders_amend_in_place_keep:
  assumes inv: "book_inv b" and lk: "order_lookup b oid = Some loc" and a: "a \<in> live_orders b"
  shows "a \<in> live_orders (amend_in_place loc nq b)"
proof -
  from inv a obtain d p l where l: "map_find p (side_of d b) = Some l" and al: "a \<in> set (orders l)"
    by (auto simp: live_orders_find)
  have "\<exists>l'. map_find p (side_of d (amend_in_place loc nq b)) = Some l' \<and> orders l' = orders l"
  proof (cases "d = loc_is_buy loc")
    case True
    show ?thesis
    proof (cases "p = loc_price loc")
      case True
      with \<open>d = loc_is_buy loc\<close> l show ?thesis
        by (simp add: amend_in_place_present [OF inv lk] map_find_def map_of_map_modify)
    next
      case False
      with \<open>d = loc_is_buy loc\<close> l show ?thesis
        by (simp add: amend_in_place_present [OF inv lk] map_find_def map_of_map_modify
            split: option.splits)
    qed
  next
    case False
    with l show ?thesis by (simp add: amend_in_place_present [OF inv lk])
  qed
  then obtain l' where "map_find p (side_of d (amend_in_place loc nq b)) = Some l'"
    and "orders l' = orders l" by blast
  with al amend_in_place_inv [OF inv lk, of nq] show ?thesis by (auto intro: level_live)
qed

lemma orphaned_add:
  assumes inv: "book_inv b" and orp: "orphaned b a"
  shows "orphaned (add_order x b) a" and "order_pool (add_order x b) ! a = order_pool b ! a"
proof -
  from orp have live: "a \<in> live_orders b" by (simp add: orphaned_def)
  from live_bound [OF inv live] have lt: "a < length (order_pool b)" .
  then show "order_pool (add_order x b) ! a = order_pool b ! a"
    by (simp add: order_pool_add_order nth_append)
  from orp lt have "\<forall>oid loc. order_lookup (add_order x b) oid = Some loc \<longrightarrow> loc_it loc \<noteq> a"
    by (auto simp: order_lookup_add_order orphaned_def)
  with live_orders_add_keep [OF inv live] show "orphaned (add_order x b) a"
    by (simp add: orphaned_def)
qed

lemma order_lookup_cancel_subset:
  assumes "book_inv b" and "order_lookup (snd (cancel_order oid b)) oid' = Some loc'"
  shows "order_lookup b oid' = Some loc'"
proof (cases "order_lookup b oid")
  case None
  with assms(2) show ?thesis by (simp add: cancel_order_absent)
next
  case (Some loc)
  from assms(1) Some obtain l where "map_find (loc_price loc) (side_of (loc_is_buy loc) b) = Some l"
    by (rule present_level)
  with Some assms(2) show ?thesis
    by (auto simp: cancel_order_present(3) split: if_splits)
qed

lemma order_pool_cancel: "order_pool (snd (cancel_order oid b)) = order_pool b"
  by (auto simp: cancel_order_def Let_def split: option.splits)

lemma orphaned_cancel:
  assumes inv: "book_inv b" and orp: "orphaned b a"
  shows "orphaned (snd (cancel_order oid b)) a"
proof -
  from orp have live: "a \<in> live_orders b"
    and nl: "\<And>oid loc. order_lookup b oid = Some loc \<Longrightarrow> loc_it loc \<noteq> a"
    by (simp_all add: orphaned_def)
  have "a \<in> live_orders (snd (cancel_order oid b))"
    using inv live nl by (rule live_orders_cancel_keep)
  moreover have "\<forall>oid' loc'. order_lookup (snd (cancel_order oid b)) oid' = Some loc' \<longrightarrow>
      loc_it loc' \<noteq> a"
    using order_lookup_cancel_subset [OF inv] nl by blast
  ultimately show ?thesis by (simp add: orphaned_def)
qed

lemma orphaned_amend_in_place:
  assumes inv: "book_inv b" and lk: "order_lookup b oid = Some loc" and orp: "orphaned b a"
  shows "orphaned (amend_in_place loc nq b) a"
    and "order_pool (amend_in_place loc nq b) ! a = order_pool b ! a"
proof -
  from orp have live: "a \<in> live_orders b"
    and nl: "\<And>oid loc. order_lookup b oid = Some loc \<Longrightarrow> loc_it loc \<noteq> a"
    by (simp_all add: orphaned_def)
  from nl [OF lk] show "order_pool (amend_in_place loc nq b) ! a = order_pool b ! a"
    by (simp add: amend_in_place_fields)
  from live_orders_amend_in_place_keep [OF inv lk live] nl
  show "orphaned (amend_in_place loc nq b) a"
    by (simp add: orphaned_def amend_in_place_fields)
qed

lemma orphaned_amend:
  assumes inv: "book_inv b" and orp: "orphaned b a"
  shows "orphaned (snd (amend_order oid np nq b)) a \<and>
         order_pool (snd (amend_order oid np nq b)) ! a = order_pool b ! a"
proof (cases "order_lookup b oid")
  case None
  with orp show ?thesis by (simp add: amend_order_absent)
next
  case (Some loc)
  show ?thesis
  proof (cases "price (order_pool b ! loc_it loc) = np")
    case False
    have cinv: "book_inv (snd (cancel_order oid b))" using inv by (rule cancel_order_inv)
    have co: "orphaned (snd (cancel_order oid b)) a" using inv orp by (rule orphaned_cancel)
    from orphaned_add [OF cinv co] False Some show ?thesis
      by (simp add: amend_order_price_change order_pool_cancel)
  next
    case True
    have i1: "book_inv (amend_in_place loc nq b)" using inv Some by (rule amend_in_place_inv)
    note o1 = orphaned_amend_in_place [OF inv Some orp, of nq]
    from orphaned_cancel [OF i1 o1(1), of oid] o1 True Some show ?thesis
      by (cases "nq = 0") (simp_all add: amend_order_same_price order_pool_cancel)
  qed
qed

lemma orphaned_op:
  assumes "book_inv b" and "orphaned b a"
  shows "orphaned (op_state x b) a \<and> order_pool (op_state x b) ! a = order_pool b ! a"
  using orphaned_add [OF assms] orphaned_cancel [OF assms] orphaned_amend [OF assms]
  by (cases x) (simp_all add: order_pool_cancel)

lemma orphaned_run:
  assumes "book_inv b" and "orphaned b a"
  shows "orphaned (run ops b) a \<and> order_pool (run ops b) ! a = order_pool b ! a"
  using assms
proof (induction ops arbitrary: b)
  case Nil
  then show ?case by simp
next
  case (Cons x ops)
  from orphaned_op [OF Cons.prems, of x]
  have o: "orphaned (op_state x b) a" and p: "order_pool (op_state x b) ! a = order_pool b ! a"
    by simp_all
  from Cons.prems(1) have "book_inv (op_state x b)" by (rule op_state_inv)
  from Cons.IH [OF this o] p show ?case by simp
qed

lemma duplicate_add_orphans:
  assumes inv: "book_inv b" and lk: "order_lookup b (order_id x) = Some loc"
  shows "orphaned (add_order x b) (loc_it loc)"
proof -
  from loc_it_live [OF inv lk] have live: "loc_it loc \<in> live_orders b" .
  from loc_it_bound [OF inv lk] have lt: "loc_it loc < length (order_pool b)"
    and oid: "order_id (order_pool b ! loc_it loc) = order_id x" by simp_all
  have "loc_it loc' \<noteq> loc_it loc" if lk': "order_lookup (add_order x b) oid' = Some loc'"
    for oid' loc'
  proof (cases "oid' = order_id x")
    case True
    with lk' lt show ?thesis by (auto simp: order_lookup_add_order)
  next
    case False
    with lk' have old: "order_lookup b oid' = Some loc'" by (simp add: order_lookup_add_order)
    from loc_it_bound(4) [OF inv old] oid False show ?thesis by auto
  qed
  with live_orders_add_keep [OF inv live] show ?thesis by (simp add: orphaned_def)
qed

section \<open>Counting resting identities\<close>

lemma card_dom_upd_present:
  "m k \<noteq> None \<Longrightarrow> card (dom (m(k \<mapsto> v))) = card (dom m)"
  by (simp add: insert_absorb domIff)

lemma card_dom_upd_absent:
  "finite (dom m) \<Longrightarrow> m k = None \<Longrightarrow> card (dom (m(k \<mapsto> v))) = Suc (card (dom m))"
  by (simp add: domIff)

lemma card_dom_erase:
  "finite (dom m) \<Longrightarrow> m k \<noteq> None \<Longrightarrow> Suc (card (dom (m(k := None)))) = card (dom m)"
proof -
  assume fin: "finite (dom m)" and "m k \<noteq> None"
  then have "k \<in> dom m" by (simp add: domIff)
  with fin have "Suc (card (dom m - {k})) = card (dom m)" by (rule card_Suc_Diff1)
  then show ?thesis by simp
qed

lemma total_orders_add:
  assumes "book_inv b"
  shows "get_total_orders (add_order x b) + (if order_lookup b (order_id x) \<noteq> None then 1 else 0) =
         Suc (get_total_orders b)"
proof -
  from assms have fin: "finite (dom (order_lookup b))" by (simp add: book_inv_def)
  show ?thesis
  proof (cases "order_lookup b (order_id x)")
    case None
    have "card (dom (order_lookup (add_order x b))) = Suc (card (dom (order_lookup b)))"
      unfolding order_lookup_add_order using fin None by (rule card_dom_upd_absent)
    with None show ?thesis by (simp add: get_total_orders_def)
  next
    case (Some loc)
    then have "order_lookup b (order_id x) \<noteq> None" by simp
    then have "card (dom (order_lookup (add_order x b))) = card (dom (order_lookup b))"
      unfolding order_lookup_add_order by (rule card_dom_upd_present)
    with Some show ?thesis by (simp add: get_total_orders_def)
  qed
qed

lemma total_orders_cancel:
  assumes "book_inv b"
  shows "get_total_orders (snd (cancel_order oid b)) + (if fst (cancel_order oid b) then 1 else 0) =
         get_total_orders b"
proof (cases "order_lookup b oid")
  case None
  then show ?thesis by (simp add: cancel_order_absent)
next
  case (Some loc)
  from assms have fin: "finite (dom (order_lookup b))" by (simp add: book_inv_def)
  from assms Some obtain l where l: "map_find (loc_price loc) (side_of (loc_is_buy loc) b) = Some l"
    by (rule present_level)
  from Some have "order_lookup b oid \<noteq> None" by simp
  with fin have "Suc (card (dom ((order_lookup b)(oid := None)))) = card (dom (order_lookup b))"
    by (rule card_dom_erase)
  then have "Suc (get_total_orders (snd (cancel_order oid b))) = get_total_orders b"
    by (simp only: get_total_orders_def cancel_order_present(3) [OF Some l])
  moreover have "fst (cancel_order oid b)" by (simp add: cancel_order_present(1) [OF Some l])
  ultimately show ?thesis by simp
qed

lemma total_orders_amend:
  assumes inv: "book_inv b"
  shows "get_total_orders (snd (amend_order oid np nq b)) +
           (if is_zero_quantity_amend_same_price (Amend oid np nq) b then 1 else 0) =
         get_total_orders b"
proof (cases "order_lookup b oid")
  case None
  then show ?thesis by (simp add: amend_order_absent)
next
  case (Some loc)
  show ?thesis
  proof (cases "price (order_pool b ! loc_it loc) = np")
    case False
    have cinv: "book_inv (snd (cancel_order oid b))" using inv by (rule cancel_order_inv)
    from inv Some have ct: "fst (cancel_order oid b)" by (simp add: cancel_order_true)
    from inv Some obtain l where l: "map_find (loc_price loc) (side_of (loc_is_buy loc) b) = Some l"
      by (rule present_level)
    have gone: "order_lookup (snd (cancel_order oid b)) oid = None"
      by (simp add: cancel_order_present(3) [OF Some l])
    let ?x = "\<lparr>order_id = oid, is_buy = is_buy (order_pool b ! loc_it loc), price = np,
               quantity = nq, timestamp_ns = timestamp_ns (order_pool b ! loc_it loc)\<rparr>"
    from total_orders_add [OF cinv, of ?x] gone
    have "get_total_orders (add_order ?x (snd (cancel_order oid b))) =
        Suc (get_total_orders (snd (cancel_order oid b)))" by simp
    with total_orders_cancel [OF inv, of oid] ct False Some show ?thesis
      by (simp add: amend_order_price_change)
  next
    case True
    have i1: "book_inv (amend_in_place loc nq b)" using inv Some by (rule amend_in_place_inv)
    have lk1: "order_lookup (amend_in_place loc nq b) oid = Some loc"
      using Some by (simp add: amend_in_place_fields)
    have t1: "get_total_orders (amend_in_place loc nq b) = get_total_orders b"
      by (simp add: get_total_orders_def amend_in_place_fields)
    from i1 lk1 have ct: "fst (cancel_order oid (amend_in_place loc nq b))"
      by (simp add: cancel_order_true)
    from total_orders_cancel [OF i1, of oid] ct t1 True Some show ?thesis
      by (cases "nq = 0") (simp_all add: amend_order_same_price)
  qed
qed

lemma total_orders_op:
  assumes "book_inv b"
  shows "get_total_orders (op_state x b) + (if is_duplicate_add x b then 1 else 0) +
           (if is_successful_cancel x b then 1 else 0) +
           (if is_zero_quantity_amend_same_price x b then 1 else 0) =
         get_total_orders b + (if is_add x b then 1 else 0)"
proof (cases x)
  case (Add order)
  with total_orders_add [OF assms, of order] show ?thesis by simp
next
  case (Cancel oid)
  with total_orders_cancel [OF assms, of oid] show ?thesis by simp
next
  case (Amend oid np nq)
  with total_orders_amend [OF assms, of oid np nq] show ?thesis by simp
qed

lemma total_orders_run:
  assumes "book_inv b"
  shows "get_total_orders (run ops b) + count_ops is_duplicate_add ops b +
           count_ops is_successful_cancel ops b +
           count_ops is_zero_quantity_amend_same_price ops b =
         get_total_orders b + count_ops is_add ops b"
  using assms
proof (induction ops arbitrary: b)
  case Nil
  then show ?case by simp
next
  case (Cons x ops)
  from Cons.prems have "book_inv (op_state x b)" by (rule op_state_inv)
  from Cons.IH [OF this] total_orders_op [OF Cons.prems, of x] show ?case by simp
qed

lemma length_orders_add:
  "sum_list (map (\<lambda>e. length (orders (snd e)))
     (map_modify p (level_add_order pool a) (map_subscript d p m))) =
   Suc (sum_list (map (\<lambda>e. length (orders (snd e))) m))"
proof (induction m)
  case Nil
  then show ?case by (simp add: level_add_order_def default_level_def)
next
  case (Cons e m)
  obtain k v where e: "e = (k, v)" by (cases e)
  consider "key_comp d k p" | "\<not> key_comp d k p" "key_comp d p k"
    | "\<not> key_comp d k p" "\<not> key_comp d p k" by blast
  then show ?case
  proof cases
    case 1
    then have "k \<noteq> p" using key_comp_irrefl by auto
    with 1 Cons.IH e show ?thesis by simp
  next
    case 2
    with e show ?thesis by (simp add: level_add_order_def default_level_def)
  next
    case 3
    then have "k = p" using key_comp_cases [of d k p] by blast
    with 3 e show ?thesis by (simp add: level_add_order_def)
  qed
qed

lemma level_records_sides:
  "level_records b =
     sum_list (map (\<lambda>e. length (orders (snd e))) (side_of True b)) +
     sum_list (map (\<lambda>e. length (orders (snd e))) (side_of False b))"
  by (simp add: level_records_def side_of_def)

lemma level_records_add: "level_records (add_order x b) = Suc (level_records b)"
  by (cases "is_buy x") (simp_all add: level_records_sides side_of_add_order length_orders_add)

lemma live_in_level:
  assumes "book_inv b" and "a \<in> live_orders b"
  shows "\<exists>l. map_find (price (order_pool b ! a)) (side_of (is_buy (order_pool b ! a)) b) = Some l \<and>
             a \<in> set (orders l) \<and> total_quantity l = level_sum (order_pool b) l"
proof -
  from assms obtain d p l where l: "map_find p (side_of d b) = Some l" and a: "a \<in> set (orders l)"
    by (auto simp: live_orders_find)
  from assms(1) l have ok: "level_ok (order_pool b) d p l" by (simp add: book_inv_sides side_ok_def)
  with a have "price (order_pool b ! a) = p" "is_buy (order_pool b ! a) = d"
    by (simp_all add: level_ok_def)
  moreover from ok have "total_quantity l = level_sum (order_pool b) l"
    by (simp add: level_ok_def level_sum_def)
  ultimately show ?thesis using l a by simp
qed

text \<open>
  Claim C8, as amended. Let the identity of a new order already have a location in a state
  satisfying the invariants. \<open>add_order\<close> makes no check: it appends the new record to the
  sequence at its price on its side and overwrites the location of the identity with the
  new handle. \<open>get_total_orders\<close> does not change while the number of records in levels
  grows by one. The earlier order is orphaned, and stays so after any further sequence of
  calls: its record is unchanged, it is still in the sequence of its level, that level's
  total still is the sum over the sequence that contains it, and no location refers to it,
  so no \<open>cancel_order\<close> or \<open>amend_order\<close> can reach it.
  \<open>get_total_orders\<close> is the number of identities in the location index. After any sequence
  of calls on a new book it equals the adds, minus the successful cancels, minus the
  zero-quantity amends that leave the price unchanged, minus the adds that overwrote a
  location.
\<close>

theorem duplicate_add_and_total_orders:
  assumes "book_inv b" and "order_lookup b (order_id x) = Some loc"
  shows "order_lookup (add_order x b) (order_id x) =
           Some \<lparr>loc_price = price x, loc_it = length (order_pool b), loc_is_buy = is_buy x\<rparr> \<and>
         orders_at (price x) (side_of (is_buy x) (add_order x b)) =
           orders_at (price x) (side_of (is_buy x) b) @ [length (order_pool b)] \<and>
         get_total_orders (add_order x b) = get_total_orders b \<and>
         level_records (add_order x b) = Suc (level_records b) \<and>
         (\<forall>ops.
            order_pool (run ops (add_order x b)) ! loc_it loc = order_pool b ! loc_it loc \<and>
            (\<exists>l. map_find (loc_price loc) (side_of (loc_is_buy loc) (run ops (add_order x b))) =
                   Some l \<and>
                 loc_it loc \<in> set (orders l) \<and>
                 total_quantity l = level_sum (order_pool (run ops (add_order x b))) l) \<and>
            (\<forall>oid' loc'. order_lookup (run ops (add_order x b)) oid' = Some loc' \<longrightarrow>
               loc_it loc' \<noteq> loc_it loc)) \<and>
         get_total_orders (add_order x b) = card (dom (order_lookup (add_order x b))) \<and>
         (\<forall>ops. int (get_total_orders (run ops empty_book)) =
                  int (count_ops is_add ops empty_book) -
                  int (count_ops is_successful_cancel ops empty_book) -
                  int (count_ops is_zero_quantity_amend_same_price ops empty_book) -
                  int (count_ops is_duplicate_add ops empty_book))"
proof -
  let ?b = "add_order x b"
  let ?a = "loc_it loc"
  have inv': "book_inv ?b" using assms(1) by (rule add_order_inv)
  have 1: "order_lookup ?b (order_id x) =
      Some \<lparr>loc_price = price x, loc_it = length (order_pool b), loc_is_buy = is_buy x\<rparr>"
    by (simp add: order_lookup_add_order)
  from assms(1) have "side_sorted (is_buy x) (side_of (is_buy x) b)"
    by (simp add: book_inv_sides side_ok_def)
  then have 2: "orders_at (price x) (side_of (is_buy x) ?b) =
      orders_at (price x) (side_of (is_buy x) b) @ [length (order_pool b)]"
    by (simp add: orders_at_add_order)
  from total_orders_add [OF assms(1), of x] assms(2)
  have 3: "get_total_orders ?b = get_total_orders b" by simp
  have 4: "level_records ?b = Suc (level_records b)" by (rule level_records_add)
  have orp: "orphaned ?b ?a" using assms by (rule duplicate_add_orphans)
  from loc_it_bound(1) [OF assms] have keep: "order_pool ?b ! ?a = order_pool b ! ?a"
    by (simp add: order_pool_add_order nth_append)
  have 5: "order_pool (run ops ?b) ! ?a = order_pool b ! ?a \<and>
      (\<exists>l. map_find (loc_price loc) (side_of (loc_is_buy loc) (run ops ?b)) = Some l \<and>
           ?a \<in> set (orders l) \<and> total_quantity l = level_sum (order_pool (run ops ?b)) l) \<and>
      (\<forall>oid' loc'. order_lookup (run ops ?b) oid' = Some loc' \<longrightarrow> loc_it loc' \<noteq> ?a)" for ops
  proof -
    from orphaned_run [OF inv' orp, of ops]
    have o: "orphaned (run ops ?b) ?a" and p: "order_pool (run ops ?b) ! ?a = order_pool b ! ?a"
      by (simp_all add: keep)
    have rinv: "book_inv (run ops ?b)" using inv' by (rule run_inv)
    from o have live: "?a \<in> live_orders (run ops ?b)" by (simp add: orphaned_def)
    from live_in_level [OF rinv live] p loc_it_bound(2,3) [OF assms]
    have "\<exists>l. map_find (loc_price loc) (side_of (loc_is_buy loc) (run ops ?b)) = Some l \<and>
           ?a \<in> set (orders l) \<and> total_quantity l = level_sum (order_pool (run ops ?b)) l"
      by simp
    with o p show ?thesis by (simp add: orphaned_def)
  qed
  have 6: "get_total_orders ?b = card (dom (order_lookup ?b))" by (rule get_total_orders_def)
  have 7: "int (get_total_orders (run ops empty_book)) =
      int (count_ops is_add ops empty_book) -
      int (count_ops is_successful_cancel ops empty_book) -
      int (count_ops is_zero_quantity_amend_same_price ops empty_book) -
      int (count_ops is_duplicate_add ops empty_book)" for ops
  proof -
    have "get_total_orders empty_book = 0" by (simp add: get_total_orders_def empty_book_def)
    with total_orders_run [OF empty_book_inv, of ops] show ?thesis by simp
  qed
  from 5 have all5: "\<forall>ops.
      order_pool (run ops ?b) ! ?a = order_pool b ! ?a \<and>
      (\<exists>l. map_find (loc_price loc) (side_of (loc_is_buy loc) (run ops ?b)) = Some l \<and>
           ?a \<in> set (orders l) \<and> total_quantity l = level_sum (order_pool (run ops ?b)) l) \<and>
      (\<forall>oid' loc'. order_lookup (run ops ?b) oid' = Some loc' \<longrightarrow> loc_it loc' \<noteq> ?a)"
    by (intro allI)
  from 7 have all7: "\<forall>ops. int (get_total_orders (run ops empty_book)) =
      int (count_ops is_add ops empty_book) -
      int (count_ops is_successful_cancel ops empty_book) -
      int (count_ops is_zero_quantity_amend_same_price ops empty_book) -
      int (count_ops is_duplicate_add ops empty_book)"
    by (intro allI)
  from 1 2 3 4 all5 6 all7 show ?thesis by (intro conjI)
qed

theorem duplicate_add_and_total_orders_witness:
  "book_inv (add_order test_order1 empty_book) \<and>
   order_lookup (add_order test_order1 empty_book) (order_id duplicate_order) =
     Some \<lparr>loc_price = 100, loc_it = 0, loc_is_buy = True\<rparr> \<and>
   order_lookup (add_order duplicate_order (add_order test_order1 empty_book)) 1 =
     Some \<lparr>loc_price = 101, loc_it = 1, loc_is_buy = True\<rparr> \<and>
   get_total_orders (add_order duplicate_order (add_order test_order1 empty_book)) =
     get_total_orders (add_order test_order1 empty_book) \<and>
   level_records (add_order duplicate_order (add_order test_order1 empty_book)) =
     Suc (level_records (add_order test_order1 empty_book)) \<and>
   order_pool (run [Cancel 1, Amend 1 100 0]
       (add_order duplicate_order (add_order test_order1 empty_book))) ! 0 = test_order1 \<and>
   (\<exists>l. map_find 100 (bids (run [Cancel 1, Amend 1 100 0]
            (add_order duplicate_order (add_order test_order1 empty_book)))) = Some l \<and>
        0 \<in> set (orders l)) \<and>
   int (get_total_orders (run [Add test_order1, Add duplicate_order] empty_book)) =
     int (count_ops is_add [Add test_order1, Add duplicate_order] empty_book) -
     int (count_ops is_successful_cancel [Add test_order1, Add duplicate_order] empty_book) -
     int (count_ops is_zero_quantity_amend_same_price [Add test_order1, Add duplicate_order]
            empty_book) -
     int (count_ops is_duplicate_add [Add test_order1, Add duplicate_order] empty_book)"
proof -
  let ?b = "add_order test_order1 empty_book"
  let ?loc = "\<lparr>loc_price = 100, loc_it = 0, loc_is_buy = True\<rparr>"
  have inv: "book_inv ?b" by (intro reachable_inv reachable.intros)
  have lk: "order_lookup ?b (order_id duplicate_order) = Some ?loc"
    by (simp add: duplicate_order_def test_order1_def book_eval)
  have pool: "order_pool ?b ! 0 = test_order1" by (simp add: order_pool_add_order empty_book_def)
  note inst = duplicate_add_and_total_orders [OF inv lk]
  note c1 = inst [THEN conjunct1]
  note c3 = inst [THEN conjunct2, THEN conjunct2, THEN conjunct1]
  note c4 = inst [THEN conjunct2, THEN conjunct2, THEN conjunct2, THEN conjunct1]
  note c5 = inst [THEN conjunct2, THEN conjunct2, THEN conjunct2, THEN conjunct2, THEN conjunct1,
      THEN spec, of "[Cancel 1, Amend 1 100 0]"]
  note c7 = inst [THEN conjunct2, THEN conjunct2, THEN conjunct2, THEN conjunct2, THEN conjunct2,
      THEN conjunct2, THEN spec, of "[Add test_order1, Add duplicate_order]"]
  from c1 have a: "order_lookup (add_order duplicate_order ?b) 1 =
      Some \<lparr>loc_price = 101, loc_it = 1, loc_is_buy = True\<rparr>"
    by (simp add: duplicate_order_def order_pool_add_order empty_book_def)
  from c5 pool have e: "order_pool (run [Cancel 1, Amend 1 100 0] (add_order duplicate_order ?b)) ! 0 =
      test_order1" by simp
  from c5 have f: "\<exists>l. map_find 100 (bids (run [Cancel 1, Amend 1 100 0]
      (add_order duplicate_order ?b))) = Some l \<and> 0 \<in> set (orders l)"
    by (auto simp: side_of_def)
  from inv lk a c3 c4 e f c7 show ?thesis by (intro conjI)
qed

text \<open>
  The count as the claim words it, with every successful \<open>amend_order\<close> call of quantity
  zero subtracted, fails: add an order, then amend it to another price with quantity zero.
  The amend is a cancel followed by an add, so the identity still rests (with quantity zero
  at the new price) and \<open>get_total_orders\<close> is 1, while the formula gives 0.
\<close>

theorem total_orders_formula_counterexample:
  "get_total_orders (run zero_amend_ops empty_book) = 1 \<and>
   count_ops is_add zero_amend_ops empty_book = 1 \<and>
   count_ops is_successful_cancel zero_amend_ops empty_book = 0 \<and>
   count_ops is_zero_quantity_amend zero_amend_ops empty_book = 1 \<and>
   count_ops is_duplicate_add zero_amend_ops empty_book = 0 \<and>
   int (get_total_orders (run zero_amend_ops empty_book)) \<noteq>
     int (count_ops is_add zero_amend_ops empty_book) -
     int (count_ops is_successful_cancel zero_amend_ops empty_book) -
     int (count_ops is_zero_quantity_amend zero_amend_ops empty_book) -
     int (count_ops is_duplicate_add zero_amend_ops empty_book)"
proof -
  let ?b1 = "add_order test_order1 empty_book"
  have lk: "order_lookup ?b1 1 = Some \<lparr>loc_price = 100, loc_it = 0, loc_is_buy = True\<rparr>"
    by (simp add: test_order1_def book_eval)
  have am: "fst (amend_order 1 101 0 ?b1) = True"
    by (simp add: test_order1_def book_eval)
  have dom: "dom (order_lookup (snd (amend_order 1 101 0 ?b1))) = {1}"
    by (simp add: test_order1_def book_eval)
  have t: "get_total_orders (run zero_amend_ops empty_book) = 1"
    by (simp add: zero_amend_ops_def get_total_orders_def dom)
  have a: "count_ops is_add zero_amend_ops empty_book = 1"
    by (simp add: zero_amend_ops_def)
  have c: "count_ops is_successful_cancel zero_amend_ops empty_book = 0"
    by (simp add: zero_amend_ops_def)
  have z: "count_ops is_zero_quantity_amend zero_amend_ops empty_book = 1"
    by (simp add: zero_amend_ops_def am)
  have d: "count_ops is_duplicate_add zero_amend_ops empty_book = 0"
    by (simp add: zero_amend_ops_def empty_book_def)
  from t a c z d show ?thesis by simp
qed

end
